theory Spec2Isabelle
  imports Main "HOL-Library.Word" "HOL-Library.AList"
begin

unbundle bit_operations_syntax

section \<open>Data model of dnsmitm\_host\_redirection.cpp\<close>

text \<open>
  \<^verbatim>\<open>ams::socket::InAddrT\<close> is an unsigned 32-bit integer, and so is the scratch variable
  \<^verbatim>\<open>work\<close>. Text is a list of bytes; a C string is read up to its first zero byte.
\<close>

type_synonym u32 = "32 word"
type_synonym InAddrT = u32

datatype State =
    IgnoredLine
  | BeginLine
  | Ip1
  | IpDot1
  | Ip2
  | IpDot2
  | Ip3
  | IpDot3
  | Ip4
  | WhiteSpace
  | HostName

datatype error = Abort

text \<open>
  \<^verbatim>\<open>std::unordered_map<std::string, InAddrT>\<close>: keys are unique. The table is kept as an
  association list; \<^verbatim>\<open>map[key] = value\<close> is insert-or-overwrite, which is
  \<^const>\<open>AList.update\<close>. The order of the list stands for the (unspecified) iteration order.
\<close>

type_synonym redirection_map = "(string \<times> InAddrT) list"

definition NUL :: char where
  "NUL = CHR 0x00"

definition LF :: char where
  "LF = CHR 0x0A"

definition CR :: char where
  "CR = CHR 0x0D"

definition TAB :: char where
  "TAB = CHR 0x09"

definition SPC :: char where
  "SPC = CHR 0x20"

definition DOT :: char where
  "DOT = CHR 0x2E"

definition c_str :: "string \<Rightarrow> string" where
  "c_str p = takeWhile (\<lambda>c. c \<noteq> NUL) p"

text \<open>\<^verbatim>\<open>std::isdigit(static_cast<unsigned char>(c))\<close> in the C locale.\<close>

definition isdigit :: "char \<Rightarrow> bool" where
  "isdigit c \<longleftrightarrow> (48::nat) \<le> of_char c \<and> (of_char c :: nat) \<le> 57"

text \<open>\<^verbatim>\<open>static_cast<u32>(c - '0')\<close>: the subtraction is done on int, the cast wraps.\<close>

definition digit_val :: "char \<Rightarrow> u32" where
  "digit_val c = word_of_int (of_char c - of_char (CHR ''0''))"

text \<open>The locals of \<^verbatim>\<open>ParseHostsFile\<close> together with the global table it writes.\<close>

record parser =
  state :: State
  current_address :: InAddrT
  current_hostname :: "char list"
  work :: u32
  g_redirection_map :: redirection_map

section \<open>ParseHostsFile\<close>

text \<open>
  The commit of a hostname token (lines 156-159 and 174-177):
  \<^verbatim>\<open>AMS_ABORT_UNLESS(work < sizeof(current_hostname));\<close>
  \<^verbatim>\<open>current_hostname[work] = '\x00';\<close>
  \<^verbatim>\<open>g_redirection_map[static_cast<const char *>(current_hostname)] = current_address;\<close>
  The key is the C string found in the buffer.
\<close>

definition commit :: "parser \<Rightarrow> error + parser" where
  "commit s =
     (if unat (work s) < 0x200 then
        (let buf = (current_hostname s)[unat (work s) := NUL]
         in Inr (s\<lparr>current_hostname := buf,
                   g_redirection_map :=
                     AList.update (c_str buf) (current_address s) (g_redirection_map s)\<rparr>))
      else Inl Abort)"

text \<open>One iteration of the \<^verbatim>\<open>for\<close> loop: the \<^verbatim>\<open>switch\<close> on the state, for the byte \<open>c\<close>.\<close>

definition step :: "parser \<Rightarrow> char \<Rightarrow> error + parser" where
  "step s c =
     (case state s of
        IgnoredLine \<Rightarrow>
          (if c = LF then Inr (s\<lparr>state := BeginLine\<rparr>) else Inr s)
      | BeginLine \<Rightarrow>
          (if isdigit c
           then Inr (s\<lparr>current_address := 0, work := digit_val c, state := Ip1\<rparr>)
           else Inr (s\<lparr>state := IgnoredLine\<rparr>))
      | Ip1 \<Rightarrow>
          (if isdigit c then Inr (s\<lparr>work := work s * 10 + digit_val c\<rparr>)
           else if c = DOT
           then Inr (s\<lparr>current_address := current_address s OR push_bit 0 (work s AND 0xFF),
                        work := 0, state := IpDot1\<rparr>)
           else Inr (s\<lparr>state := IgnoredLine\<rparr>))
      | IpDot1 \<Rightarrow>
          (if isdigit c then Inr (s\<lparr>work := digit_val c, state := Ip2\<rparr>)
           else Inr (s\<lparr>state := IgnoredLine\<rparr>))
      | Ip2 \<Rightarrow>
          (if isdigit c then Inr (s\<lparr>work := work s * 10 + digit_val c\<rparr>)
           else if c = DOT
           then Inr (s\<lparr>current_address := current_address s OR push_bit 8 (work s AND 0xFF),
                        work := 0, state := IpDot2\<rparr>)
           else Inr (s\<lparr>state := IgnoredLine\<rparr>))
      | IpDot2 \<Rightarrow>
          (if isdigit c then Inr (s\<lparr>work := digit_val c, state := Ip3\<rparr>)
           else Inr (s\<lparr>state := IgnoredLine\<rparr>))
      | Ip3 \<Rightarrow>
          (if isdigit c then Inr (s\<lparr>work := work s * 10 + digit_val c\<rparr>)
           else if c = DOT
           then Inr (s\<lparr>current_address := current_address s OR push_bit 16 (work s AND 0xFF),
                        work := 0, state := IpDot3\<rparr>)
           else Inr (s\<lparr>state := IgnoredLine\<rparr>))
      | IpDot3 \<Rightarrow>
          (if isdigit c then Inr (s\<lparr>work := digit_val c, state := Ip4\<rparr>)
           else Inr (s\<lparr>state := IgnoredLine\<rparr>))
      | Ip4 \<Rightarrow>
          (if isdigit c then Inr (s\<lparr>work := work s * 10 + digit_val c\<rparr>)
           else if c = SPC \<or> c = TAB
           then Inr (s\<lparr>current_address := current_address s OR push_bit 24 (work s AND 0xFF),
                        work := 0, state := WhiteSpace\<rparr>)
           else Inr (s\<lparr>state := IgnoredLine\<rparr>))
      | WhiteSpace \<Rightarrow>
          (if c = LF then Inr (s\<lparr>state := BeginLine\<rparr>)
           else if c \<noteq> SPC \<and> c \<noteq> CR \<and> c \<noteq> TAB
           then Inr (s\<lparr>current_hostname := (current_hostname s)[0 := c],
                        work := 1, state := HostName\<rparr>)
           else Inr s)
      | HostName \<Rightarrow>
          (if c = SPC \<or> c = CR \<or> c = LF \<or> c = TAB
           then (case commit s of
                   Inl e \<Rightarrow> Inl e
                 | Inr s' \<Rightarrow>
                     (if c = LF then Inr (s'\<lparr>state := BeginLine\<rparr>)
                      else Inr (s'\<lparr>state := WhiteSpace\<rparr>)))
           else (if unat (work s) < 0x200 - 1
                 then Inr (s\<lparr>current_hostname := (current_hostname s)[unat (work s) := c],
                              work := work s + 1\<rparr>)
                 else Inl Abort)))"

text \<open>
  The loop \<^verbatim>\<open>for (cur = file_data; *cur != '\x00'; ++cur)\<close>. The end of the list stands
  for the terminator of a text that holds no zero byte.
\<close>

fun parse_loop :: "parser \<Rightarrow> string \<Rightarrow> error + parser" where
  "parse_loop s [] = Inr s"
| "parse_loop s (c # cs) =
     (if c = NUL then Inr s
      else (case step s c of Inl e \<Rightarrow> Inl e | Inr s' \<Rightarrow> parse_loop s' cs))"

text \<open>The code after the loop (lines 173-178).\<close>

definition finish :: "parser \<Rightarrow> error + parser" where
  "finish s = (if state s = HostName then commit s else Inr s)"

text \<open>
  The locals \<^verbatim>\<open>current_address\<close>, \<^verbatim>\<open>current_hostname\<close> and \<^verbatim>\<open>work\<close> are not initialised
  by the source; the model starts them at zero (lemma \<open>parse_loop_locals_irrelevant\<close> below
  shows that the choice cannot be observed). The buffer has \<^verbatim>\<open>0x200\<close> bytes.
\<close>

definition init :: "redirection_map \<Rightarrow> parser" where
  "init tbl = \<lparr>state = BeginLine, current_address = 0,
               current_hostname = replicate 0x200 NUL, work = 0,
               g_redirection_map = tbl\<rparr>"

definition ParseHostsFile :: "string \<Rightarrow> redirection_map \<Rightarrow> error + redirection_map" where
  "ParseHostsFile file_data tbl =
     (case parse_loop (init tbl) file_data of
        Inl e \<Rightarrow> Inl e
      | Inr s \<Rightarrow> (case finish s of Inl e \<Rightarrow> Inl e | Inr s' \<Rightarrow> Inr (g_redirection_map s')))"


section \<open>Log and SelectHostsFile\<close>

text \<open>
  The filesystem service and the emulated-storage detection are not part of this file.
  Their calls are parameters of the model: \<^verbatim>\<open>fsFileGetSize\<close> and \<^verbatim>\<open>fsFileWrite\<close> give
  \<open>None\<close> when they return a failing result, \<^verbatim>\<open>mitm::fs::HasAtmosphereSdFile\<close> is the
  file-existence oracle. The type \<open>'f\<close> is the state of the open log file.
\<close>

record 'f services =
  fsFileGetSize :: "'f \<Rightarrow> int option"
  fsFileWrite :: "'f \<Rightarrow> int \<Rightarrow> string \<Rightarrow> 'f option"
  HasAtmosphereSdFile :: "string \<Rightarrow> bool"
  emummc_IsActive :: bool
  emummc_GetActiveId :: u32

text \<open>
  \<^verbatim>\<open>Log\<close> formats the message, asks for the size of the file and writes the message at that
  offset; \<^verbatim>\<open>R_ABORT_UNLESS\<close> aborts when either call fails. The argument \<open>msg\<close> is the
  formatted text (every message of \<^verbatim>\<open>SelectHostsFile\<close> is shorter than the buffer of
  \<^verbatim>\<open>0x100\<close> bytes).
\<close>

definition Log :: "'f services \<Rightarrow> 'f \<Rightarrow> string \<Rightarrow> error + 'f" where
  "Log sv f msg =
     (case fsFileGetSize sv f of
        None \<Rightarrow> Inl Abort
      | Some ofs \<Rightarrow>
          (case fsFileWrite sv f ofs msg of
             None \<Rightarrow> Inl Abort
           | Some f' \<Rightarrow> Inr f'))"

text \<open>The conversion \<^verbatim>\<open>%04x\<close> of a 32-bit value: lower-case hexadecimal, at least four digits.\<close>

definition hex_digit :: "u32 \<Rightarrow> char" where
  "hex_digit n = ''0123456789abcdef'' ! unat (n AND 0xF)"

definition hex8 :: "u32 \<Rightarrow> string" where
  "hex8 w = map (\<lambda>i. hex_digit (drop_bit (4 * i) w)) [7, 6, 5, 4, 3, 2, 1, 0]"

definition fmt_04x :: "u32 \<Rightarrow> string" where
  "fmt_04x w =
     (let ds = dropWhile (\<lambda>c. c = CHR ''0'') (hex8 w)
      in replicate (4 - length ds) (CHR ''0'') @ ds)"

definition skipping_msg :: "string \<Rightarrow> string" where
  "skipping_msg path = ''Skipping '' @ path @ '' because it does not exist...'' @ [LF]"

definition SelectHostsFile :: "'f services \<Rightarrow> 'f \<Rightarrow> error + (string \<times> 'f)" where
  "SelectHostsFile sv log_file =
     (case Log sv log_file (''Selecting hosts file...'' @ [LF]) of
        Inl e \<Rightarrow> Inl e
      | Inr f1 \<Rightarrow>
          (let is_emummc = emummc_IsActive sv;
               emummc_id = emummc_GetActiveId sv;
               g_specific_emummc_hosts_path = ''/hosts/emummc_'' @ fmt_04x emummc_id
           in if is_emummc then
                (if HasAtmosphereSdFile sv g_specific_emummc_hosts_path
                 then Inr (g_specific_emummc_hosts_path, f1)
                 else (case Log sv f1 (skipping_msg g_specific_emummc_hosts_path) of
                         Inl e \<Rightarrow> Inl e
                       | Inr f2 \<Rightarrow>
                           (if HasAtmosphereSdFile sv ''/hosts/emummc''
                            then Inr (''/hosts/emummc'', f2)
                            else (case Log sv f2 (skipping_msg ''/hosts/emummc'') of
                                    Inl e \<Rightarrow> Inl e
                                  | Inr f3 \<Rightarrow> Inr (''/hosts/default'', f3)))))
              else
                (if HasAtmosphereSdFile sv ''/hosts/sysmmc''
                 then Inr (''/hosts/sysmmc'', f1)
                 else (case Log sv f1 (skipping_msg ''/hosts/sysmmc'') of
                         Inl e \<Rightarrow> Inl e
                       | Inr f2 \<Rightarrow> Inr (''/hosts/default'', f2)))))"

section \<open>GetRedirectedHostByName\<close>

text \<open>\<^verbatim>\<open>std::strcmp(a, b) == 0\<close>: the two C strings are equal up to their terminators.\<close>

definition strcmp_eq :: "string \<Rightarrow> string \<Rightarrow> bool" where
  "strcmp_eq a b \<longleftrightarrow> c_str a = c_str b"

text \<open>
  The scan over the table. The argument \<open>out\<close> is the content of \<^verbatim>\<open>*out\<close> before the
  call; the result is the returned flag and the content of \<^verbatim>\<open>*out\<close> afterwards.
\<close>

fun GetRedirectedHostByName :: "redirection_map \<Rightarrow> InAddrT \<Rightarrow> string \<Rightarrow> bool \<times> InAddrT" where
  "GetRedirectedHostByName [] out hostname = (False, out)"
| "GetRedirectedHostByName ((host, address) # rest) out hostname =
     (if strcmp_eq host hostname then (True, address)
      else GetRedirectedHostByName rest out hostname)"


section \<open>Vocabulary of the statements\<close>

text \<open>
  The bytes that end a hostname token, and those of them that keep the scan on the line.
\<close>

definition is_ws :: "char \<Rightarrow> bool" where
  "is_ws c \<longleftrightarrow> c = SPC \<or> c = CR \<or> c = LF \<or> c = TAB"

definition is_blank :: "char \<Rightarrow> bool" where
  "is_blank c \<longleftrightarrow> c = SPC \<or> c = CR \<or> c = TAB"

text \<open>
  The address text of an entry: four non-empty runs of decimal digits separated by dots.
  \<open>dec_val\<close> is the number a run denotes, without any bound; \<open>octets_addr\<close> is the 32-bit
  value with the four numbers, each modulo 256, as its bytes from the lowest up.
\<close>

definition dec_val :: "string \<Rightarrow> nat" where
  "dec_val ds = foldl (\<lambda>n c. 10 * n + (of_char c - 48)) 0 ds"

definition ip_text :: "string \<Rightarrow> string \<Rightarrow> string \<Rightarrow> string \<Rightarrow> string" where
  "ip_text d1 d2 d3 d4 = d1 @ [DOT] @ d2 @ [DOT] @ d3 @ [DOT] @ d4"

definition is_digits :: "string \<Rightarrow> bool" where
  "is_digits d \<longleftrightarrow> d \<noteq> [] \<and> (\<forall>c\<in>set d. isdigit c)"

definition octets_addr :: "nat \<Rightarrow> nat \<Rightarrow> nat \<Rightarrow> nat \<Rightarrow> InAddrT" where
  "octets_addr a b c d =
     word_of_nat (a mod 256 + (b mod 256) * 2 ^ 8 + (c mod 256) * 2 ^ 16 + (d mod 256) * 2 ^ 24)"

text \<open>
  A hostname token is a non-empty run of bytes other than whitespace and the terminator.
  \<open>tok_of\<close> is the part of the buffer filled so far, \<open>push_char\<close> the storing of one byte.
\<close>

definition is_token :: "string \<Rightarrow> bool" where
  "is_token h \<longleftrightarrow> h \<noteq> [] \<and> (\<forall>c\<in>set h. \<not> is_ws c \<and> c \<noteq> NUL)"

definition tok_of :: "parser \<Rightarrow> string" where
  "tok_of s = take (unat (work s)) (current_hostname s)"

definition push_char :: "parser \<Rightarrow> char \<Rightarrow> parser" where
  "push_char s c = s\<lparr>current_hostname := (current_hostname s)[unat (work s) := c], work := work s + 1\<rparr>"

text \<open>
  The hostnames of a line: each token \<open>h\<close> with the blanks \<open>w\<close> that follow it.
  \<open>commit_all\<close> writes the tokens, in order, with one address.
\<close>

definition is_blanks :: "string \<Rightarrow> bool" where
  "is_blanks w \<longleftrightarrow> w \<noteq> [] \<and> (\<forall>c\<in>set w. is_blank c)"

definition hosts_text :: "(string \<times> string) list \<Rightarrow> string" where
  "hosts_text hws = concat (map (\<lambda>(h, w). h @ w) hws)"

definition commit_all :: "string list \<Rightarrow> InAddrT \<Rightarrow> redirection_map \<Rightarrow> redirection_map" where
  "commit_all hs A tbl = foldl (\<lambda>T h. AList.update h A T) tbl hs"

text \<open>
  What holds of the buffer whenever a hostname is being read, and where the token began.
\<close>

definition hn_inv :: "parser \<Rightarrow> bool" where
  "hn_inv s \<longleftrightarrow>
     length (current_hostname s) = 0x200 \<and>
     (state s = HostName \<longrightarrow>
        1 \<le> unat (work s) \<and> unat (work s) \<le> 511 \<and>
        (\<forall>c\<in>set (tok_of s). \<not> is_ws c \<and> c \<noteq> NUL))"

definition token_started :: "parser \<Rightarrow> string \<Rightarrow> parser \<Rightarrow> bool" where
  "token_started s0 p s \<longleftrightarrow>
     (\<exists>p' s1. p = p' @ tok_of s \<and> parse_loop s0 p' = Inr s1 \<and> state s1 = WhiteSpace \<and>
        current_address s1 = current_address s \<and> g_redirection_map s1 = g_redirection_map s)"

text \<open>
  The entries that one iteration, or the code after the loop, writes: the table entries
  found after running it on the state with the table emptied. \<open>committed\<close> lists the
  entries written by a whole call, in the order of the writes.
\<close>

definition step_commits :: "parser \<Rightarrow> char \<Rightarrow> (string \<times> InAddrT) list" where
  "step_commits s c =
     (case step (s\<lparr>g_redirection_map := []\<rparr>) c of
        Inl e \<Rightarrow> []
      | Inr s' \<Rightarrow> g_redirection_map s')"

definition finish_commits :: "parser \<Rightarrow> (string \<times> InAddrT) list" where
  "finish_commits s =
     (case finish (s\<lparr>g_redirection_map := []\<rparr>) of
        Inl e \<Rightarrow> []
      | Inr s' \<Rightarrow> g_redirection_map s')"

fun loop_commits :: "parser \<Rightarrow> string \<Rightarrow> (string \<times> InAddrT) list" where
  "loop_commits s [] = finish_commits s"
| "loop_commits s (c # cs) =
     (if c = NUL then finish_commits s
      else (case step s c of
              Inl e \<Rightarrow> []
            | Inr s' \<Rightarrow> step_commits s c @ loop_commits s' cs))"

definition committed :: "string \<Rightarrow> (string \<times> InAddrT) list" where
  "committed file_data = loop_commits (init []) file_data"

definition apply_commits :: "(string \<times> InAddrT) list \<Rightarrow> redirection_map \<Rightarrow> redirection_map" where
  "apply_commits es tbl = foldl (\<lambda>T (k, v). AList.update k v T) tbl es"

text \<open>What the parser leaves in the table: unique keys, none of which holds a zero byte.\<close>

definition table_ok :: "redirection_map \<Rightarrow> bool" where
  "table_ok tbl \<longleftrightarrow> distinct (map fst tbl) \<and> (\<forall>k\<in>fst ` set tbl. NUL \<notin> set k)"

text \<open>
  The selection as the specification words it: the candidate paths in order, the last of
  them being the fallback; the first of the earlier ones that exists is taken.
\<close>

definition candidates :: "'f services \<Rightarrow> string list" where
  "candidates sv =
     (if emummc_IsActive sv
      then [''/hosts/emummc_'' @ fmt_04x (emummc_GetActiveId sv), ''/hosts/emummc'', ''/hosts/default'']
      else [''/hosts/sysmmc'', ''/hosts/default''])"

definition first_existing :: "(string \<Rightarrow> bool) \<Rightarrow> string list \<Rightarrow> string" where
  "first_existing ex ps = (case find ex (butlast ps) of Some p \<Rightarrow> p | None \<Rightarrow> last ps)"

definition log_writes_succeed :: "'f services \<Rightarrow> bool" where
  "log_writes_succeed sv \<longleftrightarrow>
     (\<forall>f. fsFileGetSize sv f \<noteq> None) \<and> (\<forall>f ofs msg. fsFileWrite sv f ofs msg \<noteq> None)"

text \<open>A filesystem whose log file is a string in memory, for concrete instances.\<close>

definition mem_services :: "(string \<Rightarrow> bool) \<Rightarrow> bool \<Rightarrow> u32 \<Rightarrow> string services" where
  "mem_services ex active ident =
     \<lparr>fsFileGetSize = (\<lambda>f. Some (int (length f))),
      fsFileWrite = (\<lambda>f ofs msg. Some (f @ msg)),
      HasAtmosphereSdFile = ex,
      emummc_IsActive = active,
      emummc_GetActiveId = ident\<rparr>"

text \<open>
  Two parser states that agree on everything the remaining scan can read: the state and the
  table always, the address once a line has started, \<^verbatim>\<open>work\<close> while an octet or a hostname
  is being read, and the part of the buffer filled by the current hostname.
\<close>

definition live_eq :: "parser \<Rightarrow> parser \<Rightarrow> bool" where
  "live_eq s t \<longleftrightarrow>
     state s = state t \<and> g_redirection_map s = g_redirection_map t \<and>
     length (current_hostname s) = 0x200 \<and> length (current_hostname t) = 0x200 \<and>
     (state s \<notin> {BeginLine, IgnoredLine} \<longrightarrow> current_address s = current_address t) \<and>
     (state s \<in> {Ip1, Ip2, Ip3, Ip4, HostName} \<longrightarrow> work s = work t) \<and>
     (state s = HostName \<longrightarrow>
        tok_of s = tok_of t \<and> unat (work s) \<le> 511 \<and> NUL \<notin> set (tok_of s))"

section \<open>Bytes, C strings and the loop\<close>

lemma isdigit_not_special:
  "isdigit c \<Longrightarrow> c \<noteq> NUL \<and> c \<noteq> LF \<and> c \<noteq> DOT \<and> c \<noteq> SPC \<and> c \<noteq> TAB \<and> c \<noteq> CR"
  by (auto simp: isdigit_def NUL_def LF_def DOT_def SPC_def TAB_def CR_def)

lemma special_distinct:
  "NUL \<noteq> LF" "NUL \<noteq> CR" "NUL \<noteq> TAB" "NUL \<noteq> SPC" "NUL \<noteq> DOT" "LF \<noteq> NUL"
  "LF \<noteq> CR" "LF \<noteq> TAB" "LF \<noteq> SPC" "LF \<noteq> DOT" "CR \<noteq> NUL" "CR \<noteq> LF"
  "CR \<noteq> TAB" "CR \<noteq> SPC" "CR \<noteq> DOT" "TAB \<noteq> NUL" "TAB \<noteq> LF" "TAB \<noteq> CR"
  "TAB \<noteq> SPC" "TAB \<noteq> DOT" "SPC \<noteq> NUL" "SPC \<noteq> LF" "SPC \<noteq> CR" "SPC \<noteq> TAB"
  "SPC \<noteq> DOT" "DOT \<noteq> NUL" "DOT \<noteq> LF" "DOT \<noteq> CR" "DOT \<noteq> TAB" "DOT \<noteq> SPC"
  "\<not> isdigit NUL" "\<not> isdigit LF" "\<not> isdigit CR" "\<not> isdigit TAB" "\<not> isdigit SPC" "\<not> isdigit DOT"
  by (simp_all add: isdigit_def NUL_def LF_def DOT_def SPC_def TAB_def CR_def)

lemma step_IgnoredLine:
  "state s = IgnoredLine \<Longrightarrow> step s c = (if c = LF then Inr (s\<lparr>state := BeginLine\<rparr>) else Inr s)"
  by (simp add: step_def)

lemma step_BeginLine:
  "state s = BeginLine \<Longrightarrow> step s c =
     (if isdigit c then Inr (s\<lparr>current_address := 0, work := digit_val c, state := Ip1\<rparr>)
      else Inr (s\<lparr>state := IgnoredLine\<rparr>))"
  by (simp add: step_def)

lemma parse_loop_append:
  "NUL \<notin> set xs \<Longrightarrow>
   parse_loop s (xs @ ys) = (case parse_loop s xs of Inl e \<Rightarrow> Inl e | Inr s' \<Rightarrow> parse_loop s' ys)"
  by (induction xs arbitrary: s) (auto split: sum.splits)

lemma parse_loop_seq:
  "NUL \<notin> set xs \<Longrightarrow> parse_loop s xs = Inr s' \<Longrightarrow> parse_loop s (xs @ ys) = parse_loop s' ys"
  by (simp add: parse_loop_append)

lemma parse_loop_c_str: "parse_loop s (c_str xs) = parse_loop s xs"
  by (induction xs arbitrary: s) (auto simp: c_str_def split: sum.splits)

lemma parse_loop_IgnoredLine:
  "state s = IgnoredLine \<Longrightarrow> LF \<notin> set xs \<Longrightarrow> parse_loop s xs = Inr s"
  by (induction xs) (auto simp: step_IgnoredLine)

section \<open>Reading the address\<close>

lemma step_Ip:
  "state s = Ip1 \<Longrightarrow> step s c =
     (if isdigit c then Inr (s\<lparr>work := work s * 10 + digit_val c\<rparr>)
      else if c = DOT
      then Inr (s\<lparr>current_address := current_address s OR push_bit 0 (work s AND 0xFF),
                   work := 0, state := IpDot1\<rparr>)
      else Inr (s\<lparr>state := IgnoredLine\<rparr>))"
  "state s = Ip2 \<Longrightarrow> step s c =
     (if isdigit c then Inr (s\<lparr>work := work s * 10 + digit_val c\<rparr>)
      else if c = DOT
      then Inr (s\<lparr>current_address := current_address s OR push_bit 8 (work s AND 0xFF),
                   work := 0, state := IpDot2\<rparr>)
      else Inr (s\<lparr>state := IgnoredLine\<rparr>))"
  "state s = Ip3 \<Longrightarrow> step s c =
     (if isdigit c then Inr (s\<lparr>work := work s * 10 + digit_val c\<rparr>)
      else if c = DOT
      then Inr (s\<lparr>current_address := current_address s OR push_bit 16 (work s AND 0xFF),
                   work := 0, state := IpDot3\<rparr>)
      else Inr (s\<lparr>state := IgnoredLine\<rparr>))"
  "state s = Ip4 \<Longrightarrow> step s c =
     (if isdigit c then Inr (s\<lparr>work := work s * 10 + digit_val c\<rparr>)
      else if c = SPC \<or> c = TAB
      then Inr (s\<lparr>current_address := current_address s OR push_bit 24 (work s AND 0xFF),
                   work := 0, state := WhiteSpace\<rparr>)
      else Inr (s\<lparr>state := IgnoredLine\<rparr>))"
  by (simp_all add: step_def)

lemma step_IpDot:
  "state s = IpDot1 \<Longrightarrow> step s c =
     (if isdigit c then Inr (s\<lparr>work := digit_val c, state := Ip2\<rparr>)
      else Inr (s\<lparr>state := IgnoredLine\<rparr>))"
  "state s = IpDot2 \<Longrightarrow> step s c =
     (if isdigit c then Inr (s\<lparr>work := digit_val c, state := Ip3\<rparr>)
      else Inr (s\<lparr>state := IgnoredLine\<rparr>))"
  "state s = IpDot3 \<Longrightarrow> step s c =
     (if isdigit c then Inr (s\<lparr>work := digit_val c, state := Ip4\<rparr>)
      else Inr (s\<lparr>state := IgnoredLine\<rparr>))"
  by (simp_all add: step_def)

lemma parse_loop_digits:
  "state s \<in> {Ip1, Ip2, Ip3, Ip4} \<Longrightarrow> \<forall>c\<in>set ds. isdigit c \<Longrightarrow>
   parse_loop s ds = Inr (s\<lparr>work := foldl (\<lambda>w c. w * 10 + digit_val c) (work s) ds\<rparr>)"
proof (induction ds arbitrary: s)
  case Nil
  then show ?case by simp
next
  case (Cons c ds)
  from Cons.prems have d: "isdigit c" and nz: "c \<noteq> NUL"
    by (auto dest: isdigit_not_special)
  from Cons.prems have st: "step s c = Inr (s\<lparr>work := work s * 10 + digit_val c\<rparr>)"
    using d by (auto simp: step_Ip)
  have "parse_loop (s\<lparr>work := work s * 10 + digit_val c\<rparr>) ds =
        Inr (s\<lparr>work := work s * 10 + digit_val c\<rparr>
              \<lparr>work := foldl (\<lambda>w c. w * 10 + digit_val c) (work (s\<lparr>work := work s * 10 + digit_val c\<rparr>)) ds\<rparr>)"
    using Cons.prems by (intro Cons.IH) auto
  then show ?case using nz st by simp
qed

lemma digit_val_nat: "isdigit c \<Longrightarrow> digit_val c = word_of_nat (of_char c - 48)"
proof -
  assume d: "isdigit c"
  then have "(48::nat) \<le> of_char c" by (simp add: isdigit_def)
  then have "int (of_char c - 48) = of_char c - of_char (CHR ''0'')"
    by (simp add: of_nat_of_char)
  then show ?thesis
    unfolding digit_val_def by (metis of_int_of_nat_eq)
qed

lemma work_fold_nat:
  "\<forall>c\<in>set ds. isdigit c \<Longrightarrow>
   foldl (\<lambda>w c. w * 10 + digit_val c) (word_of_nat n :: u32) ds =
   word_of_nat (foldl (\<lambda>n c. 10 * n + (of_char c - 48)) n ds)"
proof (induction ds arbitrary: n)
  case Nil
  then show ?case by simp
next
  case (Cons c ds)
  then have e1: "(word_of_nat n :: u32) * 10 + digit_val c = word_of_nat (10 * n + (of_char c - 48))"
    by (simp add: digit_val_nat)
  have e2: "foldl (\<lambda>w c. w * 10 + digit_val c) (word_of_nat (10 * n + (of_char c - 48)) :: u32) ds =
     word_of_nat (foldl (\<lambda>n c. 10 * n + (of_char c - 48)) (10 * n + (of_char c - 48)) ds)"
    using Cons.prems by (intro Cons.IH) simp
  show ?case by (simp only: foldl_Cons e1 e2)
qed

lemma work_digits_dec:
  assumes "isdigit c" "\<forall>c\<in>set ds. isdigit c"
  shows "foldl (\<lambda>w c. w * 10 + digit_val c) (digit_val c) ds = word_of_nat (dec_val (c # ds))"
proof -
  have "digit_val c = (word_of_nat (foldl (\<lambda>n c. 10 * n + (of_char c - 48)) 0 [c]) :: u32)"
    using assms(1) by (simp add: digit_val_nat)
  then show ?thesis
    using work_fold_nat [OF assms(2)] by (simp add: dec_val_def)
qed

lemma and_ff_of_nat: "(word_of_nat n :: u32) AND 0xFF = word_of_nat (n mod 256)"
proof -
  have "(word_of_nat n :: u32) AND 0xFF = take_bit 8 (word_of_nat n :: u32)"
    by (simp add: take_bit_eq_mask mask_eq_exp_minus_1)
  also have "\<dots> = word_of_nat (take_bit 8 n)"
    by (simp add: of_nat_take_bit)
  finally show ?thesis by (simp add: take_bit_eq_mod)
qed

lemma nat_or_push_bit:
  fixes a b :: nat
  assumes "a < 2 ^ n"
  shows "a OR push_bit n b = a + b * 2 ^ n"
proof -
  have "a AND push_bit n b = 0"
  proof (rule bit_eqI)
    fix k
    have "bit a k \<Longrightarrow> k < n"
      using assms by (metis bit_take_bit_iff take_bit_nat_eq_self)
    then show "bit (a AND push_bit n b) k = bit (0::nat) k"
      by (auto simp: bit_and_iff bit_push_bit_iff)
  qed
  then have "a + push_bit n b = a OR push_bit n b"
    by (rule disjunctive_add_eq_or)
  then show ?thesis by (simp add: push_bit_eq_mult)
qed

lemma pack_octets:
  fixes a b c d :: nat
  assumes "a < 256" "b < 256" "c < 256" "d < 256"
  shows "(((word_of_nat a :: u32) OR push_bit 8 (word_of_nat b)) OR push_bit 16 (word_of_nat c))
           OR push_bit 24 (word_of_nat d)
         = word_of_nat (a + b * 2 ^ 8 + c * 2 ^ 16 + d * 2 ^ 24)"
proof -
  have 1: "a OR push_bit 8 b = a + b * 2 ^ 8"
    using assms by (intro nat_or_push_bit) simp
  have 2: "(a + b * 2 ^ 8) OR push_bit 16 c = a + b * 2 ^ 8 + c * 2 ^ 16"
    using assms by (intro nat_or_push_bit) simp
  have 3: "(a + b * 2 ^ 8 + c * 2 ^ 16) OR push_bit 24 d = a + b * 2 ^ 8 + c * 2 ^ 16 + d * 2 ^ 24"
    using assms by (intro nat_or_push_bit) simp
  have "(((word_of_nat a :: u32) OR push_bit 8 (word_of_nat b)) OR push_bit 16 (word_of_nat c))
           OR push_bit 24 (word_of_nat d)
        = word_of_nat (((a OR push_bit 8 b) OR push_bit 16 c) OR push_bit 24 d)"
    by (simp only: of_nat_or_eq of_nat_push_bit)
  then show ?thesis by (simp only: 1 2 3)
qed

lemma unat_of_nat_u32: "n < 2 ^ 32 \<Longrightarrow> unat (word_of_nat n :: u32) = n"
  by (simp add: unsigned_of_nat take_bit_nat_eq_self)

lemma unat_pack:
  fixes a b c d :: nat
  assumes "a < 256" "b < 256" "c < 256" "d < 256"
  shows "unat (word_of_nat (a + b * 2 ^ 8 + c * 2 ^ 16 + d * 2 ^ 24) :: u32)
         = a + b * 2 ^ 8 + c * 2 ^ 16 + d * 2 ^ 24"
proof -
  have "a + b * 2 ^ 8 + c * 2 ^ 16 + d * 2 ^ 24 < 2 ^ 32"
    using assms by simp
  then show ?thesis
    by (rule unat_of_nat_u32)
qed

lemma digits_no_NUL: "\<forall>c\<in>set d. isdigit c \<Longrightarrow> NUL \<notin> set d"
  by (auto dest: isdigit_not_special)

lemma scan_octet1:
  assumes "state s = BeginLine" "d \<noteq> []" "\<forall>c\<in>set d. isdigit c"
  shows "parse_loop s (d @ [DOT]) =
         Inr (s\<lparr>current_address := word_of_nat (dec_val d mod 256), work := 0, state := IpDot1\<rparr>)"
proof -
  from assms obtain c ds where d: "d = c # ds" "isdigit c" "\<forall>c\<in>set ds. isdigit c"
    by (cases d) auto
  let ?s1 = "s\<lparr>current_address := 0, work := digit_val c, state := Ip1\<rparr>"
  have 1: "step s c = Inr ?s1"
    using assms(1) d(2) by (simp add: step_BeginLine)
  have 2: "parse_loop ?s1 ds = Inr (?s1\<lparr>work := word_of_nat (dec_val d)\<rparr>)"
    using parse_loop_digits [of ?s1 ds] d work_digits_dec [of c ds] by simp
  have 3: "step (?s1\<lparr>work := word_of_nat (dec_val d)\<rparr>) DOT =
           Inr (s\<lparr>current_address := word_of_nat (dec_val d mod 256), work := 0, state := IpDot1\<rparr>)"
    by (simp add: step_Ip special_distinct and_ff_of_nat)
  have "parse_loop s (d @ [DOT]) =
        (case parse_loop s d of Inl e \<Rightarrow> Inl e | Inr s' \<Rightarrow> parse_loop s' [DOT])"
    using assms(3) by (intro parse_loop_append digits_no_NUL)
  also have "parse_loop s d = Inr (?s1\<lparr>work := word_of_nat (dec_val d)\<rparr>)"
    using 1 2 d isdigit_not_special [of c] by simp
  finally show ?thesis using 3 by (simp add: special_distinct)
qed

lemma scan_octet2:
  assumes "state s = IpDot1" "d \<noteq> []" "\<forall>c\<in>set d. isdigit c"
  shows "parse_loop s (d @ [DOT]) =
         Inr (s\<lparr>current_address := current_address s OR push_bit 8 (word_of_nat (dec_val d mod 256)),
                work := 0, state := IpDot2\<rparr>)"
proof -
  from assms obtain c ds where d: "d = c # ds" "isdigit c" "\<forall>c\<in>set ds. isdigit c"
    by (cases d) auto
  let ?s1 = "s\<lparr>work := digit_val c, state := Ip2\<rparr>"
  have 1: "step s c = Inr ?s1"
    using assms(1) d(2) by (simp add: step_IpDot)
  have 2: "parse_loop ?s1 ds = Inr (?s1\<lparr>work := word_of_nat (dec_val d)\<rparr>)"
    using parse_loop_digits [of ?s1 ds] d work_digits_dec [of c ds] by simp
  have 3: "step (?s1\<lparr>work := word_of_nat (dec_val d)\<rparr>) DOT =
           Inr (s\<lparr>current_address := current_address s OR push_bit 8 (word_of_nat (dec_val d mod 256)),
                  work := 0, state := IpDot2\<rparr>)"
    by (auto simp: step_Ip special_distinct and_ff_of_nat)
  have "parse_loop s (d @ [DOT]) =
        (case parse_loop s d of Inl e \<Rightarrow> Inl e | Inr s' \<Rightarrow> parse_loop s' [DOT])"
    using assms(3) by (intro parse_loop_append digits_no_NUL)
  also have "parse_loop s d = Inr (?s1\<lparr>work := word_of_nat (dec_val d)\<rparr>)"
    using 1 2 d isdigit_not_special [of c] by simp
  finally show ?thesis using 3 by (auto simp: special_distinct)
qed

lemma scan_octet3:
  assumes "state s = IpDot2" "d \<noteq> []" "\<forall>c\<in>set d. isdigit c"
  shows "parse_loop s (d @ [DOT]) =
         Inr (s\<lparr>current_address := current_address s OR push_bit 16 (word_of_nat (dec_val d mod 256)),
                work := 0, state := IpDot3\<rparr>)"
proof -
  from assms obtain c ds where d: "d = c # ds" "isdigit c" "\<forall>c\<in>set ds. isdigit c"
    by (cases d) auto
  let ?s1 = "s\<lparr>work := digit_val c, state := Ip3\<rparr>"
  have 1: "step s c = Inr ?s1"
    using assms(1) d(2) by (simp add: step_IpDot)
  have 2: "parse_loop ?s1 ds = Inr (?s1\<lparr>work := word_of_nat (dec_val d)\<rparr>)"
    using parse_loop_digits [of ?s1 ds] d work_digits_dec [of c ds] by simp
  have 3: "step (?s1\<lparr>work := word_of_nat (dec_val d)\<rparr>) DOT =
           Inr (s\<lparr>current_address := current_address s OR push_bit 16 (word_of_nat (dec_val d mod 256)),
                  work := 0, state := IpDot3\<rparr>)"
    by (auto simp: step_Ip special_distinct and_ff_of_nat)
  have "parse_loop s (d @ [DOT]) =
        (case parse_loop s d of Inl e \<Rightarrow> Inl e | Inr s' \<Rightarrow> parse_loop s' [DOT])"
    using assms(3) by (intro parse_loop_append digits_no_NUL)
  also have "parse_loop s d = Inr (?s1\<lparr>work := word_of_nat (dec_val d)\<rparr>)"
    using 1 2 d isdigit_not_special [of c] by simp
  finally show ?thesis using 3 by (auto simp: special_distinct)
qed

lemma scan_octet4:
  assumes "state s = IpDot3" "d \<noteq> []" "\<forall>c\<in>set d. isdigit c" "sep = SPC \<or> sep = TAB"
  shows "parse_loop s (d @ [sep]) =
         Inr (s\<lparr>current_address := current_address s OR push_bit 24 (word_of_nat (dec_val d mod 256)),
                work := 0, state := WhiteSpace\<rparr>)"
proof -
  from assms obtain c ds where d: "d = c # ds" "isdigit c" "\<forall>c\<in>set ds. isdigit c"
    by (cases d) auto
  let ?s1 = "s\<lparr>work := digit_val c, state := Ip4\<rparr>"
  have 1: "step s c = Inr ?s1"
    using assms(1) d(2) by (simp add: step_IpDot)
  have 2: "parse_loop ?s1 ds = Inr (?s1\<lparr>work := word_of_nat (dec_val d)\<rparr>)"
    using parse_loop_digits [of ?s1 ds] d work_digits_dec [of c ds] by simp
  have 3: "step (?s1\<lparr>work := word_of_nat (dec_val d)\<rparr>) sep =
           Inr (s\<lparr>current_address := current_address s OR push_bit 24 (word_of_nat (dec_val d mod 256)),
                  work := 0, state := WhiteSpace\<rparr>)"
    using assms(4) by (auto simp: step_Ip special_distinct and_ff_of_nat)
  have "parse_loop s (d @ [sep]) =
        (case parse_loop s d of Inl e \<Rightarrow> Inl e | Inr s' \<Rightarrow> parse_loop s' [sep])"
    using assms(3) by (intro parse_loop_append digits_no_NUL)
  also have "parse_loop s d = Inr (?s1\<lparr>work := word_of_nat (dec_val d)\<rparr>)"
    using 1 2 d isdigit_not_special [of c] by simp
  finally show ?thesis using 3 assms(4) by (auto simp: special_distinct)
qed

lemma unat_octets_addr:
  "unat (octets_addr a b c d) =
     a mod 256 + (b mod 256) * 2 ^ 8 + (c mod 256) * 2 ^ 16 + (d mod 256) * 2 ^ 24"
  unfolding octets_addr_def by (rule unat_pack) simp_all

lemma scan_ip:
  assumes "state s = BeginLine" "is_digits d1" "is_digits d2" "is_digits d3" "is_digits d4"
    and "sep = SPC \<or> sep = TAB"
  shows "parse_loop s (ip_text d1 d2 d3 d4 @ [sep]) =
         Inr (s\<lparr>current_address := octets_addr (dec_val d1) (dec_val d2) (dec_val d3) (dec_val d4),
                work := 0, state := WhiteSpace\<rparr>)"
proof -
  let ?s1 = "s\<lparr>current_address := word_of_nat (dec_val d1 mod 256), work := 0, state := IpDot1\<rparr>"
  let ?s2 = "?s1\<lparr>current_address := current_address ?s1 OR push_bit 8 (word_of_nat (dec_val d2 mod 256)),
                work := 0, state := IpDot2\<rparr>"
  let ?s3 = "?s2\<lparr>current_address := current_address ?s2 OR push_bit 16 (word_of_nat (dec_val d3 mod 256)),
                work := 0, state := IpDot3\<rparr>"
  let ?s4 = "?s3\<lparr>current_address := current_address ?s3 OR push_bit 24 (word_of_nat (dec_val d4 mod 256)),
                work := 0, state := WhiteSpace\<rparr>"
  have n: "NUL \<notin> set (d1 @ [DOT])" "NUL \<notin> set (d2 @ [DOT])" "NUL \<notin> set (d3 @ [DOT])"
    using assms(2-4) by (auto simp: is_digits_def special_distinct dest: isdigit_not_special)
  have 1: "parse_loop s (d1 @ [DOT]) = Inr ?s1"
    using assms by (intro scan_octet1) (auto simp: is_digits_def)
  have 2: "parse_loop ?s1 (d2 @ [DOT]) = Inr ?s2"
    using assms by (intro scan_octet2) (auto simp: is_digits_def)
  have 3: "parse_loop ?s2 (d3 @ [DOT]) = Inr ?s3"
    using assms by (intro scan_octet3) (auto simp: is_digits_def)
  have 4: "parse_loop ?s3 (d4 @ [sep]) = Inr ?s4"
    using assms by (intro scan_octet4) (auto simp: is_digits_def)
  note a = parse_loop_seq [OF n(1) 1]
  note b = parse_loop_seq [OF n(2) 2]
  note c = parse_loop_seq [OF n(3) 3]
  have "ip_text d1 d2 d3 d4 @ [sep] = (d1 @ [DOT]) @ (d2 @ [DOT]) @ (d3 @ [DOT]) @ (d4 @ [sep])"
    by (simp add: ip_text_def)
  then have "parse_loop s (ip_text d1 d2 d3 d4 @ [sep]) = Inr ?s4"
    by (simp only: a b c 4)
  moreover have "current_address ?s4 = octets_addr (dec_val d1) (dec_val d2) (dec_val d3) (dec_val d4)"
    unfolding octets_addr_def
    using pack_octets [of "dec_val d1 mod 256" "dec_val d2 mod 256" "dec_val d3 mod 256" "dec_val d4 mod 256"]
    by simp
  ultimately show ?thesis by simp
qed

section \<open>Reading hostname tokens\<close>

lemma step_WhiteSpace:
  "state s = WhiteSpace \<Longrightarrow> step s c =
     (if c = LF then Inr (s\<lparr>state := BeginLine\<rparr>)
      else if c \<noteq> SPC \<and> c \<noteq> CR \<and> c \<noteq> TAB
      then Inr (s\<lparr>current_hostname := (current_hostname s)[0 := c], work := 1, state := HostName\<rparr>)
      else Inr s)"
  by (simp add: step_def)

lemma step_HostName:
  "state s = HostName \<Longrightarrow> step s c =
     (if is_ws c
      then (case commit s of
              Inl e \<Rightarrow> Inl e
            | Inr s' \<Rightarrow> Inr (s'\<lparr>state := (if c = LF then BeginLine else WhiteSpace)\<rparr>))
      else (if unat (work s) < 511 then Inr (push_char s c) else Inl Abort))"
  by (auto simp: step_def is_ws_def push_char_def split: sum.splits)

lemma unat_work_Suc: "unat (w :: u32) < 511 \<Longrightarrow> unat (w + 1) = Suc (unat w)"
  by (simp add: unat_word_ariths)

lemma push_char_simps:
  "state (push_char s c) = state s"
  "current_address (push_char s c) = current_address s"
  "g_redirection_map (push_char s c) = g_redirection_map s"
  "length (current_hostname (push_char s c)) = length (current_hostname s)"
  by (simp_all add: push_char_def)

lemma push_char_work:
  "unat (work s) < 511 \<Longrightarrow> unat (work (push_char s c)) = Suc (unat (work s))"
  by (simp add: push_char_def unat_work_Suc)

lemma push_char_tok:
  "unat (work s) < 511 \<Longrightarrow> length (current_hostname s) = 0x200 \<Longrightarrow>
   tok_of (push_char s c) = tok_of s @ [c]"
  by (simp add: tok_of_def push_char_def unat_work_Suc take_Suc_conv_app_nth)

lemma c_str_terminated: "NUL \<notin> set xs \<Longrightarrow> c_str (xs @ NUL # ys) = xs"
  by (induction xs) (auto simp: c_str_def)

lemma c_str_id: "NUL \<notin> set xs \<Longrightarrow> c_str xs = xs"
  by (induction xs) (auto simp: c_str_def)

lemma c_str_no_NUL: "NUL \<notin> set (c_str xs)"
  by (induction xs) (auto simp: c_str_def)

lemma commit_tok:
  assumes "length (current_hostname s) = 0x200" "unat (work s) \<le> 511" "NUL \<notin> set (tok_of s)"
  shows "commit s = Inr (s\<lparr>current_hostname := (current_hostname s)[unat (work s) := NUL],
            g_redirection_map := AList.update (tok_of s) (current_address s) (g_redirection_map s)\<rparr>)"
proof -
  let ?w = "unat (work s)" and ?b = "current_hostname s"
  have w: "?w < length ?b" using assms by simp
  have "?b[?w := NUL] = take ?w ?b @ NUL # drop (Suc ?w) ?b"
    using w by (rule upd_conv_take_nth_drop)
  then have "c_str (?b[?w := NUL]) = take ?w ?b"
    using assms(3) by (simp add: tok_of_def c_str_terminated)
  then show ?thesis
    using w assms(1) by (simp add: commit_def tok_of_def Let_def)
qed

lemma push_chars_simps:
  "state (foldl push_char s cs) = state s"
  "current_address (foldl push_char s cs) = current_address s"
  "g_redirection_map (foldl push_char s cs) = g_redirection_map s"
  "length (current_hostname (foldl push_char s cs)) = length (current_hostname s)"
  by (induction cs arbitrary: s) (simp_all add: push_char_simps)

lemma push_chars_tok:
  "unat (work s) + length cs \<le> 511 \<Longrightarrow> length (current_hostname s) = 0x200 \<Longrightarrow>
   unat (work (foldl push_char s cs)) = unat (work s) + length cs \<and>
   tok_of (foldl push_char s cs) = tok_of s @ cs"
proof (induction cs arbitrary: s)
  case Nil
  then show ?case by simp
next
  case (Cons c cs)
  from Cons.prems have w: "unat (work s) < 511" by simp
  have "unat (work (push_char s c)) + length cs \<le> 511"
    using Cons.prems by (simp add: push_char_work [OF w])
  moreover have "length (current_hostname (push_char s c)) = 0x200"
    using Cons.prems by (simp add: push_char_simps)
  ultimately have "unat (work (foldl push_char (push_char s c) cs)) = unat (work (push_char s c)) + length cs \<and>
       tok_of (foldl push_char (push_char s c) cs) = tok_of (push_char s c) @ cs"
    by (rule Cons.IH)
  then show ?case
    using Cons.prems by (simp add: push_char_work [OF w] push_char_tok [OF w])
qed

lemma scan_host_chars:
  "state s = HostName \<Longrightarrow> \<forall>c\<in>set cs. \<not> is_ws c \<and> c \<noteq> NUL \<Longrightarrow>
   unat (work s) + length cs \<le> 511 \<Longrightarrow> parse_loop s cs = Inr (foldl push_char s cs)"
proof (induction cs arbitrary: s)
  case Nil
  then show ?case by simp
next
  case (Cons c cs)
  from Cons.prems have w: "unat (work s) < 511" by simp
  have st: "step s c = Inr (push_char s c)"
    using Cons.prems w by (simp add: step_HostName)
  have "parse_loop (push_char s c) cs = Inr (foldl push_char (push_char s c) cs)"
    using Cons.prems by (intro Cons.IH) (simp_all add: push_char_simps push_char_work [OF w])
  then show ?case using st Cons.prems by simp
qed

lemma scan_token:
  assumes "state s = WhiteSpace" "length (current_hostname s) = 0x200" "is_token h" "length h \<le> 511"
  shows "\<exists>s'. parse_loop s h = Inr s' \<and> state s' = HostName \<and> tok_of s' = h \<and>
              unat (work s') = length h \<and> current_address s' = current_address s \<and>
              g_redirection_map s' = g_redirection_map s \<and>
              length (current_hostname s') = 0x200"
proof -
  from assms(3) obtain c cs where h: "h = c # cs" "\<not> is_ws c" "c \<noteq> NUL"
      "\<forall>c\<in>set cs. \<not> is_ws c \<and> c \<noteq> NUL"
    by (cases h) (auto simp: is_token_def)
  let ?s1 = "s\<lparr>current_hostname := (current_hostname s)[0 := c], work := 1, state := HostName\<rparr>"
  have 1: "step s c = Inr ?s1"
    using assms(1) h(2) by (auto simp: step_WhiteSpace is_ws_def)
  have t1: "tok_of ?s1 = [c]"
    using assms(2) by (cases "current_hostname s") (simp_all add: tok_of_def)
  have w1: "unat (work ?s1) + length cs \<le> 511"
    using assms(4) h(1) by simp
  have 2: "parse_loop ?s1 cs = Inr (foldl push_char ?s1 cs)"
    using h(4) w1 by (intro scan_host_chars) simp_all
  have 3: "unat (work (foldl push_char ?s1 cs)) = unat (work ?s1) + length cs \<and>
           tok_of (foldl push_char ?s1 cs) = tok_of ?s1 @ cs"
    using w1 assms(2) by (intro push_chars_tok) simp_all
  have "parse_loop s h = Inr (foldl push_char ?s1 cs)"
    using 1 2 h by simp
  then show ?thesis
    using 3 t1 h(1) assms(2) by (simp add: push_chars_simps)
qed

lemma is_ws_not_NUL: "is_ws t \<Longrightarrow> t \<noteq> NUL"
  by (auto simp: is_ws_def NUL_def SPC_def CR_def LF_def TAB_def)

lemma scan_token_commit:
  assumes "state s = WhiteSpace" "length (current_hostname s) = 0x200" "is_token h" "length h \<le> 511"
    and "is_ws t"
  shows "\<exists>s'. parse_loop s (h @ [t]) = Inr s' \<and>
              state s' = (if t = LF then BeginLine else WhiteSpace) \<and>
              current_address s' = current_address s \<and>
              g_redirection_map s' = AList.update h (current_address s) (g_redirection_map s) \<and>
              length (current_hostname s') = 0x200"
proof -
  from scan_token [OF assms(1-4)] obtain s1 where s1: "parse_loop s h = Inr s1" "state s1 = HostName"
      "tok_of s1 = h" "unat (work s1) = length h" "current_address s1 = current_address s"
      "g_redirection_map s1 = g_redirection_map s" "length (current_hostname s1) = 0x200"
    by (elim exE conjE)
  have n: "NUL \<notin> set h" "t \<noteq> NUL"
    using assms(3,5) is_ws_not_NUL by (auto simp: is_token_def)
  have "commit s1 = Inr (s1\<lparr>current_hostname := (current_hostname s1)[unat (work s1) := NUL],
            g_redirection_map := AList.update (tok_of s1) (current_address s1) (g_redirection_map s1)\<rparr>)"
    using s1 assms(4) n by (intro commit_tok) simp_all
  then have "step s1 t = Inr (s1\<lparr>current_hostname := (current_hostname s1)[unat (work s1) := NUL],
            g_redirection_map := AList.update h (current_address s) (g_redirection_map s),
            state := (if t = LF then BeginLine else WhiteSpace)\<rparr>)"
    using s1 assms(5) by (simp add: step_HostName)
  moreover have "parse_loop s (h @ [t]) = parse_loop s1 [t]"
    using n(1) s1(1) by (rule parse_loop_seq)
  ultimately show ?thesis
    using n(2) s1(5,7) by simp
qed

lemma scan_token_abort:
  assumes "state s = WhiteSpace" "length (current_hostname s) = 0x200" "is_token h" "512 \<le> length h"
  shows "parse_loop s (h @ rest) = Inl Abort"
proof -
  define h1 where "h1 = take 511 h"
  define c where "c = h ! 511"
  define h2 where "h2 = drop (Suc 511) h"
  have "drop 511 h = c # h2"
    unfolding c_def h2_def using assms(4) by (intro Cons_nth_drop_Suc [symmetric]) simp
  then have "take 511 h @ drop 511 h = h1 @ c # h2"
    by (simp only: h1_def)
  then have h: "h = h1 @ c # h2"
    by (simp only: append_take_drop_id)
  have l: "length h1 = 511" using assms(4) by (simp add: h1_def)
  have "\<forall>x\<in>set h. \<not> is_ws x \<and> x \<noteq> NUL"
    using assms(3) by (simp add: is_token_def)
  then have "\<forall>x\<in>set (h1 @ c # h2). \<not> is_ws x \<and> x \<noteq> NUL"
    using h by simp
  moreover have "h1 \<noteq> []" using l by auto
  ultimately have tk: "is_token h1" "\<not> is_ws c" "c \<noteq> NUL"
    by (auto simp: is_token_def)
  have "length h1 \<le> 511" using l by simp
  from scan_token [OF assms(1,2) tk(1) this] obtain s1 where s1: "parse_loop s h1 = Inr s1"
      "state s1 = HostName" "unat (work s1) = length h1"
    by (elim exE conjE)
  have "step s1 c = Inl Abort"
    using s1 tk l by (simp add: step_HostName)
  then have "parse_loop s1 (c # h2 @ rest) = Inl Abort"
    using tk(3) by simp
  moreover have "parse_loop s (h1 @ (c # h2 @ rest)) = parse_loop s1 (c # h2 @ rest)"
    using tk(1) s1(1) by (intro parse_loop_seq) (auto simp: is_token_def)
  ultimately show ?thesis using h by simp
qed

section \<open>Entry lines\<close>

lemma scan_blanks:
  "state s = WhiteSpace \<Longrightarrow> \<forall>c\<in>set bs. is_blank c \<Longrightarrow> parse_loop s bs = Inr s"
  by (induction bs) (auto simp: step_WhiteSpace is_blank_def special_distinct)

lemma is_blank_not_NUL: "is_blank c \<Longrightarrow> c \<noteq> NUL"
  by (auto simp: is_blank_def NUL_def SPC_def CR_def TAB_def)

lemma commit_length:
  "commit s = Inr s' \<Longrightarrow> length (current_hostname s') = length (current_hostname s)"
  by (auto simp: commit_def Let_def split: if_splits)

lemma commit_state:
  "commit s = Inr s' \<Longrightarrow> state s' = state s \<and> current_address s' = current_address s \<and> work s' = work s"
  by (auto simp: commit_def Let_def split: if_splits)

lemma step_length:
  "step s c = Inr s' \<Longrightarrow> length (current_hostname s') = length (current_hostname s)"
  by (cases "state s")
     (auto simp: step_IgnoredLine step_BeginLine step_Ip step_IpDot step_WhiteSpace step_HostName
        push_char_simps dest: commit_length split: if_splits sum.splits)

lemma parse_loop_length:
  "parse_loop s xs = Inr s' \<Longrightarrow> length (current_hostname s') = length (current_hostname s)"
  by (induction xs arbitrary: s) (auto split: if_splits sum.splits dest: step_length)

lemma init_simps:
  "state (init tbl) = BeginLine" "length (current_hostname (init tbl)) = 0x200"
  "g_redirection_map (init tbl) = tbl"
  by (simp_all add: init_def)

lemma ParseHostsFile_not_HostName:
  "parse_loop (init tbl) xs = Inr s \<Longrightarrow> state s \<noteq> HostName \<Longrightarrow>
   ParseHostsFile xs tbl = Inr (g_redirection_map s)"
  by (simp add: ParseHostsFile_def finish_def)

lemma scan_entry:
  assumes "state s = BeginLine" "length (current_hostname s) = 0x200"
    and "is_digits d1" "is_digits d2" "is_digits d3" "is_digits d4" "sep = SPC \<or> sep = TAB"
    and "\<forall>c\<in>set pad. is_blank c" "is_token h" "length h \<le> 511" "is_ws t"
  shows "\<exists>s'. parse_loop s (ip_text d1 d2 d3 d4 @ [sep] @ pad @ h @ [t]) = Inr s' \<and>
              state s' = (if t = LF then BeginLine else WhiteSpace) \<and>
              current_address s' = octets_addr (dec_val d1) (dec_val d2) (dec_val d3) (dec_val d4) \<and>
              g_redirection_map s' =
                AList.update h (octets_addr (dec_val d1) (dec_val d2) (dec_val d3) (dec_val d4))
                  (g_redirection_map s) \<and>
              length (current_hostname s') = 0x200"
proof -
  let ?A = "octets_addr (dec_val d1) (dec_val d2) (dec_val d3) (dec_val d4)"
  let ?s1 = "s\<lparr>current_address := ?A, work := 0, state := WhiteSpace\<rparr>"
  have ip: "parse_loop s (ip_text d1 d2 d3 d4 @ [sep]) = Inr ?s1"
    using assms(1,3-7) by (rule scan_ip)
  have n1: "NUL \<notin> set (ip_text d1 d2 d3 d4 @ [sep])"
    using assms(3-7) by (auto simp: ip_text_def is_digits_def special_distinct dest: isdigit_not_special)
  have n2: "NUL \<notin> set pad"
    using assms(8) is_blank_not_NUL by auto
  have pad: "parse_loop ?s1 pad = Inr ?s1"
    using assms(8) by (intro scan_blanks) simp_all
  have "\<exists>s'. parse_loop ?s1 (h @ [t]) = Inr s' \<and>
              state s' = (if t = LF then BeginLine else WhiteSpace) \<and>
              current_address s' = current_address ?s1 \<and>
              g_redirection_map s' = AList.update h (current_address ?s1) (g_redirection_map ?s1) \<and>
              length (current_hostname s') = 0x200"
    using assms(2,9-11) by (intro scan_token_commit) simp_all
  moreover have "parse_loop s (ip_text d1 d2 d3 d4 @ [sep] @ pad @ h @ [t]) = parse_loop ?s1 (h @ [t])"
    using parse_loop_seq [OF n1 ip, of "pad @ h @ [t]"] parse_loop_seq [OF n2 pad, of "h @ [t]"]
    by simp
  ultimately show ?thesis by simp
qed

lemma is_digits_simps:
  "is_digits [] \<longleftrightarrow> False"
  "is_digits [c] \<longleftrightarrow> isdigit c"
  "is_digits (c # d # ds) \<longleftrightarrow> isdigit c \<and> is_digits (d # ds)"
  by (auto simp: is_digits_def)

section \<open>Invariant of the hostname buffer\<close>

lemma step_into_HostName:
  assumes "step s1 c = Inr s" "state s = HostName"
  shows "(state s1 = WhiteSpace \<and> \<not> is_ws c \<and>
            s = s1\<lparr>current_hostname := (current_hostname s1)[0 := c], work := 1, state := HostName\<rparr>) \<or>
         (state s1 = HostName \<and> \<not> is_ws c \<and> unat (work s1) < 511 \<and> s = push_char s1 c)"
proof (cases "state s1")
  case WhiteSpace
  then show ?thesis using assms
    by (auto simp: step_WhiteSpace is_ws_def split: if_splits)
next
  case HostName
  then show ?thesis using assms
    by (auto simp: step_HostName split: if_splits sum.splits)
qed (use assms in \<open>auto simp: step_IgnoredLine step_BeginLine step_Ip step_IpDot split: if_splits\<close>)

lemma tok_of_first:
  "length (current_hostname s) = 0x200 \<Longrightarrow>
   tok_of (s\<lparr>current_hostname := (current_hostname s)[0 := c], work := 1, state := HostName\<rparr>) = [c]"
  by (cases "current_hostname s") (simp_all add: tok_of_def)

lemma step_hn_inv:
  assumes "hn_inv s1" "step s1 c = Inr s" "c \<noteq> NUL"
  shows "hn_inv s"
proof (cases "state s = HostName")
  case False
  then show ?thesis
    using assms step_length [OF assms(2)] by (simp add: hn_inv_def)
next
  case True
  from step_into_HostName [OF assms(2) True] show ?thesis
  proof (elim disjE conjE)
    assume a: "state s1 = WhiteSpace" "\<not> is_ws c"
      "s = s1\<lparr>current_hostname := (current_hostname s1)[0 := c], work := 1, state := HostName\<rparr>"
    have "tok_of s = [c]"
      using assms(1) unfolding a(3) by (intro tok_of_first) (simp add: hn_inv_def)
    then show ?thesis
      using assms(1,3) a by (simp add: hn_inv_def)
  next
    assume a: "state s1 = HostName" "\<not> is_ws c" "unat (work s1) < 511" "s = push_char s1 c"
    have "tok_of s = tok_of s1 @ [c]"
      using assms(1) a(3) unfolding a(4) by (intro push_char_tok) (simp_all add: hn_inv_def)
    then show ?thesis
      using assms(1,3) a by (simp add: hn_inv_def push_char_simps push_char_work)
  qed
qed

lemma parse_loop_hn_inv:
  "hn_inv s \<Longrightarrow> parse_loop s xs = Inr s' \<Longrightarrow> hn_inv s'"
  by (induction xs arbitrary: s) (auto split: if_splits sum.splits dest: step_hn_inv)

lemma hn_inv_init: "hn_inv (init tbl)"
  by (simp add: hn_inv_def init_def)

lemma parse_loop_snoc:
  assumes "NUL \<notin> set p" "c \<noteq> NUL" "parse_loop s0 (p @ [c]) = Inr s"
  shows "\<exists>s1. parse_loop s0 p = Inr s1 \<and> step s1 c = Inr s"
  using assms by (auto simp: parse_loop_append split: sum.splits)

lemma reach_token_started:
  "NUL \<notin> set p \<Longrightarrow> hn_inv s0 \<Longrightarrow> state s0 \<noteq> HostName \<Longrightarrow> parse_loop s0 p = Inr s \<Longrightarrow>
   state s = HostName \<Longrightarrow> token_started s0 p s"
proof (induction p arbitrary: s rule: rev_induct)
  case Nil
  then show ?case by simp
next
  case (snoc c p)
  from snoc.prems have n: "NUL \<notin> set p" "c \<noteq> NUL" by auto
  from parse_loop_snoc [OF n snoc.prems(4)] obtain s1 where
    s1: "parse_loop s0 p = Inr s1" "step s1 c = Inr s" by blast
  have inv1: "hn_inv s1" using snoc.prems(2) s1(1) by (rule parse_loop_hn_inv)
  from step_into_HostName [OF s1(2) snoc.prems(5)] show ?case
  proof (elim disjE conjE)
    assume a: "state s1 = WhiteSpace" "\<not> is_ws c"
      "s = s1\<lparr>current_hostname := (current_hostname s1)[0 := c], work := 1, state := HostName\<rparr>"
    have "tok_of s = [c]"
      using inv1 unfolding a(3) by (intro tok_of_first) (simp add: hn_inv_def)
    then show ?thesis
      unfolding token_started_def using s1(1) a by (intro exI [of _ p] exI [of _ s1]) simp
  next
    assume a: "state s1 = HostName" "\<not> is_ws c" "unat (work s1) < 511" "s = push_char s1 c"
    have t: "tok_of s = tok_of s1 @ [c]"
      using inv1 a(3) unfolding a(4) by (intro push_char_tok) (simp_all add: hn_inv_def)
    from snoc.IH [OF n(1) snoc.prems(2,3) s1(1) a(1)] obtain p' s2 where
      "p = p' @ tok_of s1" "parse_loop s0 p' = Inr s2" "state s2 = WhiteSpace"
      "current_address s2 = current_address s1" "g_redirection_map s2 = g_redirection_map s1"
      unfolding token_started_def by blast
    then show ?thesis
      unfolding token_started_def using t a(4)
      by (intro exI [of _ p'] exI [of _ s2]) (simp add: push_char_simps)
  qed
qed

lemma hn_inv_commit:
  assumes "hn_inv s" "state s = HostName"
  shows "commit s = Inr (s\<lparr>current_hostname := (current_hostname s)[unat (work s) := NUL],
            g_redirection_map := AList.update (tok_of s) (current_address s) (g_redirection_map s)\<rparr>)"
  using assms by (intro commit_tok) (auto simp: hn_inv_def)

lemma hn_inv_token:
  "hn_inv s \<Longrightarrow> state s = HostName \<Longrightarrow> is_token (tok_of s) \<and> length (tok_of s) = unat (work s)"
  by (auto simp: hn_inv_def is_token_def tok_of_def)

section \<open>Whole calls on entry lines and at the end of the text\<close>

lemma ParseHostsFile_entry:
  assumes "NUL \<notin> set pre" "parse_loop (init tbl) pre = Inr s" "state s = BeginLine"
    and "is_digits d1" "is_digits d2" "is_digits d3" "is_digits d4" "sep = SPC \<or> sep = TAB"
    and "\<forall>c\<in>set pad. is_blank c" "is_token h" "length h \<le> 511" "is_ws t"
  shows "ParseHostsFile (pre @ ip_text d1 d2 d3 d4 @ [sep] @ pad @ h @ [t]) tbl =
           Inr (AList.update h (octets_addr (dec_val d1) (dec_val d2) (dec_val d3) (dec_val d4))
                  (g_redirection_map s))"
proof -
  let ?A = "octets_addr (dec_val d1) (dec_val d2) (dec_val d3) (dec_val d4)"
  let ?line = "ip_text d1 d2 d3 d4 @ [sep] @ pad @ h @ [t]"
  have len: "length (current_hostname s) = 0x200"
    using parse_loop_length [OF assms(2)] by (simp add: init_simps)
  from scan_entry [OF assms(3) len assms(4-12)]
  obtain s' where s': "parse_loop s ?line = Inr s'"
      "state s' = (if t = LF then BeginLine else WhiteSpace)"
      "g_redirection_map s' = AList.update h ?A (g_redirection_map s)"
    by (elim exE conjE)
  have "parse_loop (init tbl) (pre @ ?line) = Inr s'"
    using parse_loop_seq [OF assms(1,2)] s'(1) by simp
  moreover have "state s' \<noteq> HostName" using s'(2) by simp
  ultimately show ?thesis
    using s'(3) by (simp add: ParseHostsFile_not_HostName)
qed

lemma ParseHostsFile_eof_in_token:
  assumes "NUL \<notin> set p" "parse_loop (init tbl) p = Inr s" "state s = HostName"
  shows "ParseHostsFile p tbl =
           Inr (AList.update (tok_of s) (current_address s) (g_redirection_map s))"
    and "ParseHostsFile (p @ [LF]) tbl = ParseHostsFile p tbl"
proof -
  have inv: "hn_inv s"
    using hn_inv_init assms(2) by (rule parse_loop_hn_inv)
  note c = hn_inv_commit [OF inv assms(3)]
  show 1: "ParseHostsFile p tbl =
           Inr (AList.update (tok_of s) (current_address s) (g_redirection_map s))"
    using assms(2,3) c by (simp add: ParseHostsFile_def finish_def)
  have "step s LF = Inr (s\<lparr>current_hostname := (current_hostname s)[unat (work s) := NUL],
            g_redirection_map := AList.update (tok_of s) (current_address s) (g_redirection_map s),
            state := BeginLine\<rparr>)"
    using assms(3) c by (simp add: step_HostName is_ws_def)
  then have "parse_loop (init tbl) (p @ [LF]) =
        Inr (s\<lparr>current_hostname := (current_hostname s)[unat (work s) := NUL],
            g_redirection_map := AList.update (tok_of s) (current_address s) (g_redirection_map s),
            state := BeginLine\<rparr>)"
    using parse_loop_seq [OF assms(1,2), of "[LF]"] by (simp add: special_distinct)
  then show "ParseHostsFile (p @ [LF]) tbl = ParseHostsFile p tbl"
    unfolding 1 by (simp add: ParseHostsFile_def finish_def)
qed

lemma is_token_simps:
  "is_token [] \<longleftrightarrow> False"
  "is_token [c] \<longleftrightarrow> \<not> is_ws c \<and> c \<noteq> NUL"
  "is_token (c # d # ds) \<longleftrightarrow> \<not> is_ws c \<and> c \<noteq> NUL \<and> is_token (d # ds)"
  by (auto simp: is_token_def)

lemmas char_defs = NUL_def LF_def CR_def TAB_def SPC_def DOT_def

lemma scan_ip_token:
  assumes "state s = BeginLine" "length (current_hostname s) = 0x200"
    and "is_digits d1" "is_digits d2" "is_digits d3" "is_digits d4" "sep = SPC \<or> sep = TAB"
    and "is_token h" "length h \<le> 511"
  shows "\<exists>s'. parse_loop s (ip_text d1 d2 d3 d4 @ [sep] @ h) = Inr s' \<and> state s' = HostName"
proof -
  let ?A = "octets_addr (dec_val d1) (dec_val d2) (dec_val d3) (dec_val d4)"
  let ?s1 = "s\<lparr>current_address := ?A, work := 0, state := WhiteSpace\<rparr>"
  have ip: "parse_loop s (ip_text d1 d2 d3 d4 @ [sep]) = Inr ?s1"
    using assms(1,3-7) by (rule scan_ip)
  have n1: "NUL \<notin> set (ip_text d1 d2 d3 d4 @ [sep])"
    using assms(3-7) by (auto simp: ip_text_def is_digits_def special_distinct dest: isdigit_not_special)
  have "\<exists>s'. parse_loop ?s1 h = Inr s' \<and> state s' = HostName \<and> tok_of s' = h \<and>
              unat (work s') = length h \<and> current_address s' = current_address ?s1 \<and>
              g_redirection_map s' = g_redirection_map ?s1 \<and>
              length (current_hostname s') = 0x200"
    using assms(2,8,9) by (intro scan_token) simp_all
  then show ?thesis
    using parse_loop_seq [OF n1 ip, of h] by auto
qed

section \<open>Newlines and ignored lines\<close>

lemma step_LF_address_states:
  "state s \<in> {BeginLine, Ip1, IpDot1, Ip2, IpDot2, Ip3, IpDot3, Ip4} \<Longrightarrow>
   step s LF = Inr (s\<lparr>state := IgnoredLine\<rparr>)"
  by (auto simp: step_BeginLine step_Ip step_IpDot special_distinct)

lemma parse_loop_ignored_line:
  assumes "state s = IgnoredLine" "LF \<notin> set l" "NUL \<notin> set l"
  shows "parse_loop s (l @ [LF]) = Inr (s\<lparr>state := BeginLine\<rparr>)"
proof -
  have "parse_loop s l = Inr s"
    using assms(1,2) by (rule parse_loop_IgnoredLine)
  from parse_loop_seq [OF assms(3) this, of "[LF]"] show ?thesis
    using assms(1) by (simp add: step_IgnoredLine special_distinct)
qed

lemma parse_loop_result_state:
  "(case parse_loop s xs of Inl e \<Rightarrow> False | Inr s' \<Rightarrow> state s' = st) \<Longrightarrow>
   \<exists>s'. parse_loop s xs = Inr s' \<and> state s' = st"
  by (cases "parse_loop s xs") simp_all

section \<open>When the call aborts\<close>

lemma parse_loop_abort_split:
  "parse_loop s0 xs = Inl e \<Longrightarrow>
   \<exists>p c r s. xs = p @ c # r \<and> NUL \<notin> set p \<and> c \<noteq> NUL \<and> parse_loop s0 p = Inr s \<and> step s c = Inl e"
proof (induction xs arbitrary: s0)
  case Nil
  then show ?case by simp
next
  case (Cons x xs)
  from Cons.prems have x: "x \<noteq> NUL" by (auto split: if_splits)
  show ?case
  proof (cases "step s0 x")
    case (Inl e')
    then have "e' = e" using Cons.prems x by simp
    then show ?thesis
      using Inl x by (intro exI [of _ "[]"] exI [of _ x] exI [of _ xs] exI [of _ s0]) simp
  next
    case (Inr s1)
    then have "parse_loop s1 xs = Inl e" using Cons.prems x by simp
    from Cons.IH [OF this] obtain p c r s where
      "xs = p @ c # r" "NUL \<notin> set p" "c \<noteq> NUL" "parse_loop s1 p = Inr s" "step s c = Inl e"
      by blast
    then show ?thesis
      using Inr x by (intro exI [of _ "x # p"] exI [of _ c] exI [of _ r] exI [of _ s]) simp
  qed
qed

lemma step_abort:
  assumes "hn_inv s" "step s c = Inl e"
  shows "state s = HostName \<and> \<not> is_ws c \<and> unat (work s) = 511"
proof (cases "state s")
  case HostName
  then show ?thesis
    using assms hn_inv_commit [OF assms(1) HostName]
    by (auto simp: step_HostName hn_inv_def split: if_splits)
qed (use assms in \<open>auto simp: step_IgnoredLine step_BeginLine step_Ip step_IpDot step_WhiteSpace
        split: if_splits\<close>)

lemma finish_no_abort: "hn_inv s \<Longrightarrow> \<exists>s'. finish s = Inr s'"
  by (cases "state s = HostName") (simp_all add: finish_def hn_inv_commit)

lemma ParseHostsFile_abort_iff:
  "ParseHostsFile text tbl = Inl Abort \<longleftrightarrow>
     (\<exists>p tok rest s. c_str text = p @ tok @ rest \<and> length tok = 512 \<and>
        (\<forall>c\<in>set tok. \<not> is_ws c) \<and> parse_loop (init tbl) p = Inr s \<and> state s = WhiteSpace)"
proof
  assume ab: "ParseHostsFile text tbl = Inl Abort"
  have "\<exists>e. parse_loop (init tbl) (c_str text) = Inl e"
  proof (cases "parse_loop (init tbl) text")
    case (Inl e)
    then show ?thesis by (simp add: parse_loop_c_str)
  next
    case (Inr s)
    then have "hn_inv s" using hn_inv_init parse_loop_hn_inv by blast
    from finish_no_abort [OF this] obtain s' where "finish s = Inr s'" by blast
    then have False using ab Inr by (simp add: ParseHostsFile_def)
    then show ?thesis ..
  qed
  then obtain e where "parse_loop (init tbl) (c_str text) = Inl e" by blast
  from parse_loop_abort_split [OF this] obtain p c r s where
    x: "c_str text = p @ c # r" "NUL \<notin> set p" "c \<noteq> NUL" "parse_loop (init tbl) p = Inr s"
       "step s c = Inl e"
    by blast
  have inv: "hn_inv s" using hn_inv_init x(4) by (rule parse_loop_hn_inv)
  from step_abort [OF inv x(5)] have st: "state s = HostName" "\<not> is_ws c" "unat (work s) = 511"
    by simp_all
  have "token_started (init tbl) p s"
    using x(2) hn_inv_init _ x(4) st(1) by (rule reach_token_started) (simp add: init_simps)
  then obtain p' s1 where t: "p = p' @ tok_of s" "parse_loop (init tbl) p' = Inr s1"
      "state s1 = WhiteSpace"
    unfolding token_started_def by blast
  from hn_inv_token [OF inv st(1)] have tk: "is_token (tok_of s)" "length (tok_of s) = 511"
    using st(3) by simp_all
  have "c_str text = p' @ (tok_of s @ [c]) @ r"
    using x(1) t(1) by simp
  moreover have "length (tok_of s @ [c]) = 512"
    using tk(2) by simp
  moreover have "\<forall>x\<in>set (tok_of s @ [c]). \<not> is_ws x"
    using tk(1) st(2) by (auto simp: is_token_def)
  ultimately show "\<exists>p tok rest s. c_str text = p @ tok @ rest \<and> length tok = 512 \<and>
        (\<forall>c\<in>set tok. \<not> is_ws c) \<and> parse_loop (init tbl) p = Inr s \<and> state s = WhiteSpace"
    using t(2,3) by blast
next
  assume "\<exists>p tok rest s. c_str text = p @ tok @ rest \<and> length tok = 512 \<and>
        (\<forall>c\<in>set tok. \<not> is_ws c) \<and> parse_loop (init tbl) p = Inr s \<and> state s = WhiteSpace"
  then obtain p tok rest s where
    x: "c_str text = p @ tok @ rest" "length tok = 512" "\<forall>c\<in>set tok. \<not> is_ws c"
       "parse_loop (init tbl) p = Inr s" "state s = WhiteSpace"
    by blast
  have "NUL \<notin> set (p @ tok @ rest)"
    using c_str_no_NUL [of "text"] x(1) by simp
  then have n: "NUL \<notin> set p" "NUL \<notin> set tok" by simp_all
  have "tok \<noteq> []" using x(2) by auto
  then have tk: "is_token tok" using x(3) n(2) by (auto simp: is_token_def)
  have len: "length (current_hostname s) = 0x200"
    using parse_loop_length [OF x(4)] by (simp add: init_simps)
  have "parse_loop s (tok @ rest) = Inl Abort"
    using x(5) len tk x(2) by (intro scan_token_abort) simp_all
  then have "parse_loop (init tbl) (c_str text) = Inl Abort"
    using parse_loop_seq [OF n(1) x(4), of "tok @ rest"] x(1) by simp
  then show "ParseHostsFile text tbl = Inl Abort"
    by (simp add: ParseHostsFile_def parse_loop_c_str)
qed

lemma ParseHostsFile_token:
  assumes "NUL \<notin> set pre" "parse_loop (init tbl) pre = Inr s" "state s = WhiteSpace"
    and "is_token h" "is_ws t"
  shows "ParseHostsFile (pre @ h @ [t]) tbl =
           (if length h \<le> 511
            then Inr (AList.update h (current_address s) (g_redirection_map s))
            else Inl Abort)"
proof (cases "length h \<le> 511")
  case True
  have len: "length (current_hostname s) = 0x200"
    using parse_loop_length [OF assms(2)] by (simp add: init_simps)
  from scan_token_commit [OF assms(3) len assms(4) True assms(5)] obtain s' where
    s': "parse_loop s (h @ [t]) = Inr s'" "state s' = (if t = LF then BeginLine else WhiteSpace)"
        "g_redirection_map s' = AList.update h (current_address s) (g_redirection_map s)"
    by (elim exE conjE)
  have "parse_loop (init tbl) (pre @ h @ [t]) = Inr s'"
    using parse_loop_seq [OF assms(1,2), of "h @ [t]"] s'(1) by simp
  moreover have "state s' \<noteq> HostName" using s'(2) by simp
  ultimately show ?thesis
    using True s'(3) by (simp add: ParseHostsFile_not_HostName)
next
  case False
  have len: "length (current_hostname s) = 0x200"
    using parse_loop_length [OF assms(2)] by (simp add: init_simps)
  have "parse_loop s (h @ [t]) = Inl Abort"
    using assms(3) len assms(4) False by (intro scan_token_abort) simp_all
  then have "parse_loop (init tbl) (pre @ h @ [t]) = Inl Abort"
    using parse_loop_seq [OF assms(1,2), of "h @ [t]"] by simp
  then show ?thesis
    using False by (simp add: ParseHostsFile_def)
qed

lemma is_token_replicate:
  "0 < n \<Longrightarrow> \<not> is_ws c \<Longrightarrow> c \<noteq> NUL \<Longrightarrow> is_token (replicate n c)"
  by (auto simp: is_token_def)

lemma scan_1111:
  "parse_loop (init []) ''1.1.1.1 '' =
     Inr ((init [])\<lparr>current_address := 0x01010101, work := 0, state := WhiteSpace\<rparr>)"
proof -
  have "parse_loop (init []) (ip_text ''1'' ''1'' ''1'' ''1'' @ [SPC]) =
     Inr ((init [])\<lparr>current_address := octets_addr (dec_val ''1'') (dec_val ''1'') (dec_val ''1'') (dec_val ''1''),
            work := 0, state := WhiteSpace\<rparr>)"
    by (rule scan_ip) (simp_all add: init_simps is_digits_simps isdigit_def)
  then show ?thesis
    by (simp add: ip_text_def char_defs octets_addr_def dec_val_def)
qed

section \<open>Several hostnames on a line\<close>

lemma is_blank_is_ws: "is_blank c \<Longrightarrow> is_ws c \<and> c \<noteq> LF"
  by (auto simp: is_blank_def is_ws_def special_distinct)

lemma is_token_no_NUL: "is_token h \<Longrightarrow> NUL \<notin> set h"
  by (auto simp: is_token_def)

lemma scan_token_blanks:
  assumes "state s = WhiteSpace" "length (current_hostname s) = 0x200" "is_token h" "length h \<le> 511"
    and "is_blanks w"
  shows "\<exists>s'. parse_loop s (h @ w) = Inr s' \<and> state s' = WhiteSpace \<and>
              current_address s' = current_address s \<and>
              g_redirection_map s' = AList.update h (current_address s) (g_redirection_map s) \<and>
              length (current_hostname s') = 0x200"
proof -
  from assms(5) obtain t bs where w: "w = t # bs" "is_blank t" "\<forall>c\<in>set bs. is_blank c"
    by (cases w) (auto simp: is_blanks_def)
  have t: "is_ws t" "t \<noteq> LF" using is_blank_is_ws [OF w(2)] by simp_all
  from scan_token_commit [OF assms(1-4) t(1)] obtain s1 where
    s1: "parse_loop s (h @ [t]) = Inr s1" "state s1 = WhiteSpace"
        "current_address s1 = current_address s"
        "g_redirection_map s1 = AList.update h (current_address s) (g_redirection_map s)"
        "length (current_hostname s1) = 0x200"
    using t(2) by auto
  have n: "NUL \<notin> set (h @ [t])"
    using is_token_no_NUL [OF assms(3)] is_blank_not_NUL [OF w(2)] by simp
  have "parse_loop s1 bs = Inr s1"
    using s1(2) w(3) by (rule scan_blanks)
  then have "parse_loop s (h @ w) = Inr s1"
    using parse_loop_seq [OF n s1(1), of bs] w(1) by simp
  then show ?thesis using s1 by simp
qed

lemma scan_hosts:
  "state s = WhiteSpace \<Longrightarrow> length (current_hostname s) = 0x200 \<Longrightarrow>
   \<forall>(h, w)\<in>set hws. is_token h \<and> length h \<le> 511 \<and> is_blanks w \<Longrightarrow>
   \<exists>s'. parse_loop s (hosts_text hws) = Inr s' \<and> state s' = WhiteSpace \<and>
        current_address s' = current_address s \<and>
        g_redirection_map s' = commit_all (map fst hws) (current_address s) (g_redirection_map s) \<and>
        length (current_hostname s') = 0x200"
proof (induction hws arbitrary: s)
  case Nil
  then show ?case by (simp add: hosts_text_def commit_all_def)
next
  case (Cons hw hws)
  obtain h w where hw: "hw = (h, w)" by (cases hw)
  from Cons.prems(3) hw have p: "is_token h" "length h \<le> 511" "is_blanks w"
    and rest: "\<forall>(h, w)\<in>set hws. is_token h \<and> length h \<le> 511 \<and> is_blanks w"
    by auto
  from scan_token_blanks [OF Cons.prems(1,2) p] obtain s1 where
    s1: "parse_loop s (h @ w) = Inr s1" "state s1 = WhiteSpace"
        "current_address s1 = current_address s"
        "g_redirection_map s1 = AList.update h (current_address s) (g_redirection_map s)"
        "length (current_hostname s1) = 0x200"
    by (elim exE conjE)
  from Cons.IH [OF s1(2,5) rest] obtain s2 where
    s2: "parse_loop s1 (hosts_text hws) = Inr s2" "state s2 = WhiteSpace"
        "current_address s2 = current_address s1"
        "g_redirection_map s2 = commit_all (map fst hws) (current_address s1) (g_redirection_map s1)"
        "length (current_hostname s2) = 0x200"
    by (elim exE conjE)
  have n: "NUL \<notin> set (h @ w)"
    using is_token_no_NUL [OF p(1)] p(3) is_blank_not_NUL by (auto simp: is_blanks_def)
  have "parse_loop s (hosts_text (hw # hws)) = Inr s2"
    using parse_loop_seq [OF n s1(1), of "hosts_text hws"] s2(1) hw by (simp add: hosts_text_def)
  then show ?case
    using s2 s1 hw by (simp add: commit_all_def)
qed

lemma hosts_text_no_NUL:
  "\<forall>(h, w)\<in>set hws. is_token h \<and> length h \<le> 511 \<and> is_blanks w \<Longrightarrow> NUL \<notin> set (hosts_text hws)"
  using is_blank_not_NUL by (fastforce simp: hosts_text_def is_blanks_def is_token_def)

lemma commit_all_snoc: "commit_all (hs @ [h]) A tbl = AList.update h A (commit_all hs A tbl)"
  by (simp add: commit_all_def)

lemma map_of_commit_all:
  "map_of (commit_all hs A tbl) k = (if k \<in> set hs then Some A else map_of tbl k)"
  by (induction hs rule: rev_induct) (auto simp: commit_all_snoc update_conv' commit_all_def)

lemma keys_commit_all: "fst ` set (commit_all hs A tbl) = fst ` set tbl \<union> set hs"
  by (induction hs rule: rev_induct) (auto simp: commit_all_snoc dom_update commit_all_def)

lemma ParseHostsFile_hosts:
  assumes "NUL \<notin> set pre" "parse_loop (init tbl) pre = Inr s" "state s = BeginLine"
    and "is_digits d1" "is_digits d2" "is_digits d3" "is_digits d4" "sep = SPC \<or> sep = TAB"
    and "\<forall>c\<in>set pad. is_blank c"
    and "\<forall>(h, w)\<in>set hws. is_token h \<and> length h \<le> 511 \<and> is_blanks w"
    and "is_token h" "length h \<le> 511" "is_ws t"
  shows "ParseHostsFile (pre @ ip_text d1 d2 d3 d4 @ [sep] @ pad @ hosts_text hws @ h @ [t]) tbl =
           Inr (commit_all (map fst hws @ [h])
                  (octets_addr (dec_val d1) (dec_val d2) (dec_val d3) (dec_val d4))
                  (g_redirection_map s))"
proof -
  let ?A = "octets_addr (dec_val d1) (dec_val d2) (dec_val d3) (dec_val d4)"
  let ?s1 = "s\<lparr>current_address := ?A, work := 0, state := WhiteSpace\<rparr>"
  have len: "length (current_hostname s) = 0x200"
    using parse_loop_length [OF assms(2)] by (simp add: init_simps)
  have ip: "parse_loop s (ip_text d1 d2 d3 d4 @ [sep]) = Inr ?s1"
    using assms(3-8) by (intro scan_ip)
  have n1: "NUL \<notin> set (ip_text d1 d2 d3 d4 @ [sep])"
    using assms(4-8) by (auto simp: ip_text_def is_digits_def special_distinct dest: isdigit_not_special)
  have n2: "NUL \<notin> set pad"
    using assms(9) is_blank_not_NUL by auto
  have pad: "parse_loop ?s1 pad = Inr ?s1"
    using assms(9) by (intro scan_blanks) simp_all
  have "\<exists>s'. parse_loop ?s1 (hosts_text hws) = Inr s' \<and> state s' = WhiteSpace \<and>
        current_address s' = current_address ?s1 \<and>
        g_redirection_map s' = commit_all (map fst hws) (current_address ?s1) (g_redirection_map ?s1) \<and>
        length (current_hostname s') = 0x200"
    using len assms(10) by (intro scan_hosts) simp_all
  then obtain s2 where
    s2: "parse_loop ?s1 (hosts_text hws) = Inr s2" "state s2 = WhiteSpace"
        "current_address s2 = ?A"
        "g_redirection_map s2 = commit_all (map fst hws) ?A (g_redirection_map s)"
        "length (current_hostname s2) = 0x200"
    by auto
  from scan_token_commit [OF s2(2,5) assms(11-13)] obtain s3 where
    s3: "parse_loop s2 (h @ [t]) = Inr s3" "state s3 = (if t = LF then BeginLine else WhiteSpace)"
        "g_redirection_map s3 = AList.update h (current_address s2) (g_redirection_map s2)"
    by (elim exE conjE)
  note n3 = hosts_text_no_NUL [OF assms(10)]
  have "parse_loop (init tbl) (pre @ (ip_text d1 d2 d3 d4 @ [sep]) @ pad @ hosts_text hws @ h @ [t]) = Inr s3"
    using parse_loop_seq [OF assms(1,2)] parse_loop_seq [OF n1 ip] parse_loop_seq [OF n2 pad]
      parse_loop_seq [OF n3 s2(1)] s3(1)
    by (simp only:)
  then have "parse_loop (init tbl) (pre @ ip_text d1 d2 d3 d4 @ [sep] @ pad @ hosts_text hws @ h @ [t]) = Inr s3"
    by simp
  moreover have "state s3 \<noteq> HostName" using s3(2) by simp
  ultimately show ?thesis
    using s3(3) s2(3,4) by (simp add: ParseHostsFile_not_HostName commit_all_snoc)
qed

lemma scan_hosts_token:
  assumes "NUL \<notin> set pre" "parse_loop (init tbl) pre = Inr s" "state s = BeginLine"
    and "is_digits d1" "is_digits d2" "is_digits d3" "is_digits d4" "sep = SPC \<or> sep = TAB"
    and "\<forall>c\<in>set pad. is_blank c"
    and "\<forall>(h, w)\<in>set hws. is_token h \<and> length h \<le> 511 \<and> is_blanks w"
    and "is_token h" "length h \<le> 511"
  shows "NUL \<notin> set (pre @ ip_text d1 d2 d3 d4 @ [sep] @ pad @ hosts_text hws @ h) \<and>
         (\<exists>s'. parse_loop (init tbl) (pre @ ip_text d1 d2 d3 d4 @ [sep] @ pad @ hosts_text hws @ h) = Inr s' \<and>
               state s' = HostName)"
proof -
  let ?A = "octets_addr (dec_val d1) (dec_val d2) (dec_val d3) (dec_val d4)"
  let ?s1 = "s\<lparr>current_address := ?A, work := 0, state := WhiteSpace\<rparr>"
  have len: "length (current_hostname s) = 0x200"
    using parse_loop_length [OF assms(2)] by (simp add: init_simps)
  have ip: "parse_loop s (ip_text d1 d2 d3 d4 @ [sep]) = Inr ?s1"
    using assms(3-8) by (intro scan_ip)
  have n1: "NUL \<notin> set (ip_text d1 d2 d3 d4 @ [sep])"
    using assms(4-8) by (auto simp: ip_text_def is_digits_def special_distinct dest: isdigit_not_special)
  have n2: "NUL \<notin> set pad"
    using assms(9) is_blank_not_NUL by auto
  have pad: "parse_loop ?s1 pad = Inr ?s1"
    using assms(9) by (intro scan_blanks) simp_all
  have "\<exists>s'. parse_loop ?s1 (hosts_text hws) = Inr s' \<and> state s' = WhiteSpace \<and>
        current_address s' = current_address ?s1 \<and>
        g_redirection_map s' = commit_all (map fst hws) (current_address ?s1) (g_redirection_map ?s1) \<and>
        length (current_hostname s') = 0x200"
    using len assms(10) by (intro scan_hosts) simp_all
  then obtain s2 where
    s2: "parse_loop ?s1 (hosts_text hws) = Inr s2" "state s2 = WhiteSpace"
        "length (current_hostname s2) = 0x200"
    by auto
  from scan_token [OF s2(2,3) assms(11,12)] obtain s3 where
    s3: "parse_loop s2 h = Inr s3" "state s3 = HostName"
    by (elim exE conjE)
  note n3 = hosts_text_no_NUL [OF assms(10)]
  note n4 = is_token_no_NUL [OF assms(11)]
  have "parse_loop (init tbl) (pre @ (ip_text d1 d2 d3 d4 @ [sep]) @ pad @ hosts_text hws @ h) = Inr s3"
    using parse_loop_seq [OF assms(1,2)] parse_loop_seq [OF n1 ip] parse_loop_seq [OF n2 pad]
      parse_loop_seq [OF n3 s2(1)] s3(1)
    by (simp only:)
  then have "parse_loop (init tbl) (pre @ ip_text d1 d2 d3 d4 @ [sep] @ pad @ hosts_text hws @ h) = Inr s3"
    by simp
  moreover have "NUL \<notin> set (pre @ ip_text d1 d2 d3 d4 @ [sep] @ pad @ hosts_text hws @ h)"
    using assms(1) n1 n2 n3 n4 by simp
  ultimately show ?thesis using s3(2) by blast
qed

lemma ParseHostsFile_hosts_eof:
  assumes "NUL \<notin> set pre" "parse_loop (init tbl) pre = Inr s" "state s = BeginLine"
    and "is_digits d1" "is_digits d2" "is_digits d3" "is_digits d4" "sep = SPC \<or> sep = TAB"
    and "\<forall>c\<in>set pad. is_blank c"
    and "\<forall>(h, w)\<in>set hws. is_token h \<and> length h \<le> 511 \<and> is_blanks w"
    and "is_token h" "length h \<le> 511"
  shows "ParseHostsFile (pre @ ip_text d1 d2 d3 d4 @ [sep] @ pad @ hosts_text hws @ h) tbl =
           Inr (commit_all (map fst hws @ [h])
                  (octets_addr (dec_val d1) (dec_val d2) (dec_val d3) (dec_val d4))
                  (g_redirection_map s))"
proof -
  let ?p = "pre @ ip_text d1 d2 d3 d4 @ [sep] @ pad @ hosts_text hws @ h"
  from scan_hosts_token [OF assms] obtain s' where
    p: "NUL \<notin> set ?p" "parse_loop (init tbl) ?p = Inr s'" "state s' = HostName"
    by blast
  have "is_ws LF" by (simp add: is_ws_def)
  from ParseHostsFile_hosts [OF assms this] ParseHostsFile_eof_in_token(2) [OF p]
  show ?thesis by simp
qed

section \<open>The sequence of commits\<close>

lemma commit_table:
  "commit (s\<lparr>g_redirection_map := T\<rparr>) =
     (case commit (s\<lparr>g_redirection_map := []\<rparr>) of
        Inl e \<Rightarrow> Inl e
      | Inr s' \<Rightarrow> Inr (s'\<lparr>g_redirection_map := apply_commits (g_redirection_map s') T\<rparr>))"
  by (simp add: commit_def Let_def apply_commits_def)

lemma step_table:
  "step (s\<lparr>g_redirection_map := T\<rparr>) c =
     (case step (s\<lparr>g_redirection_map := []\<rparr>) c of
        Inl e \<Rightarrow> Inl e
      | Inr s' \<Rightarrow> Inr (s'\<lparr>g_redirection_map := apply_commits (g_redirection_map s') T\<rparr>))"
proof (cases "state s")
  case HostName
  then show ?thesis
    by (simp add: step_def commit_def Let_def apply_commits_def)
qed (simp_all add: step_def apply_commits_def)

lemma finish_table:
  "finish (s\<lparr>g_redirection_map := T\<rparr>) =
     (case finish (s\<lparr>g_redirection_map := []\<rparr>) of
        Inl e \<Rightarrow> Inl e
      | Inr s' \<Rightarrow> Inr (s'\<lparr>g_redirection_map := apply_commits (g_redirection_map s') T\<rparr>))"
  by (simp add: finish_def commit_def Let_def apply_commits_def)

lemma table_self: "s\<lparr>g_redirection_map := g_redirection_map s\<rparr> = s"
  by simp

lemma step_commits_table:
  assumes "step s c = Inr s'"
  shows "g_redirection_map s' = apply_commits (step_commits s c) (g_redirection_map s)"
proof -
  have "step (s\<lparr>g_redirection_map := g_redirection_map s\<rparr>) c = Inr s'"
    using assms by simp
  then show ?thesis
    unfolding step_table [where s=s and T="g_redirection_map s" and c=c]
    by (auto simp: step_commits_def split: sum.splits)
qed

lemma finish_commits_table:
  assumes "finish s = Inr s'"
  shows "g_redirection_map s' = apply_commits (finish_commits s) (g_redirection_map s)"
proof -
  have "finish (s\<lparr>g_redirection_map := g_redirection_map s\<rparr>) = Inr s'"
    using assms by simp
  then show ?thesis
    unfolding finish_table [where s=s and T="g_redirection_map s"]
    by (auto simp: finish_commits_def split: sum.splits)
qed

lemma apply_commits_append:
  "apply_commits (es @ fs) T = apply_commits fs (apply_commits es T)"
  by (simp add: apply_commits_def)

lemma loop_commits_table:
  "parse_loop s xs = Inr s1 \<Longrightarrow> finish s1 = Inr s2 \<Longrightarrow>
   g_redirection_map s2 = apply_commits (loop_commits s xs) (g_redirection_map s)"
proof (induction xs arbitrary: s)
  case Nil
  then show ?case by (simp add: finish_commits_table)
next
  case (Cons c cs)
  show ?case
  proof (cases "c = NUL")
    case True
    then show ?thesis using Cons.prems by (simp add: finish_commits_table)
  next
    case False
    then obtain s' where s': "step s c = Inr s'" "parse_loop s' cs = Inr s1"
      using Cons.prems(1) by (auto split: sum.splits)
    have "g_redirection_map s2 = apply_commits (loop_commits s' cs) (g_redirection_map s')"
      using s'(2) Cons.prems(2) by (rule Cons.IH)
    then show ?thesis
      using False s'(1) step_commits_table [OF s'(1)] by (simp add: apply_commits_append)
  qed
qed

lemma step_commits_erase:
  "step_commits (s\<lparr>g_redirection_map := T\<rparr>) c = step_commits s c"
  by (simp add: step_commits_def)

lemma finish_commits_erase:
  "finish_commits (s\<lparr>g_redirection_map := T\<rparr>) = finish_commits s"
  by (simp add: finish_commits_def)

lemma loop_commits_erase:
  "loop_commits (s\<lparr>g_redirection_map := T\<rparr>) xs = loop_commits (s\<lparr>g_redirection_map := []\<rparr>) xs"
proof (induction xs arbitrary: s T)
  case Nil
  then show ?case by (simp add: finish_commits_erase)
next
  case (Cons c cs)
  show ?case
  proof (cases "step (s\<lparr>g_redirection_map := []\<rparr>) c")
    case (Inl e)
    then show ?thesis
      using step_table [where s=s and T=T and c=c] by (simp add: finish_commits_erase)
  next
    case (Inr s0)
    have a: "step (s\<lparr>g_redirection_map := T\<rparr>) c =
             Inr (s0\<lparr>g_redirection_map := apply_commits (g_redirection_map s0) T\<rparr>)"
      using step_table [where s=s and T=T and c=c] Inr by simp
    have "loop_commits (s0\<lparr>g_redirection_map := apply_commits (g_redirection_map s0) T\<rparr>) cs =
          loop_commits (s0\<lparr>g_redirection_map := []\<rparr>) cs"
      by (rule Cons.IH)
    moreover have "loop_commits (s0\<lparr>g_redirection_map := g_redirection_map s0\<rparr>) cs =
          loop_commits (s0\<lparr>g_redirection_map := []\<rparr>) cs"
      by (rule Cons.IH)
    ultimately show ?thesis
      using a Inr by (simp add: finish_commits_erase step_commits_erase)
  qed
qed

lemma init_table: "init tbl = (init [])\<lparr>g_redirection_map := tbl\<rparr>"
  by (simp add: init_def)

lemma ParseHostsFile_committed:
  assumes "ParseHostsFile file_data tbl = Inr T"
  shows "T = apply_commits (committed file_data) tbl"
proof -
  from assms obtain s1 s2 where s: "parse_loop (init tbl) file_data = Inr s1" "finish s1 = Inr s2"
      "T = g_redirection_map s2"
    by (auto simp: ParseHostsFile_def split: sum.splits)
  have "loop_commits (init tbl) file_data = committed file_data"
    unfolding committed_def init_table [where tbl=tbl]
    using loop_commits_erase [where s="init []" and T=tbl and xs=file_data]
    by (simp add: init_table [where tbl="[]", symmetric])
  then show ?thesis
    using loop_commits_table [OF s(1,2)] s(3) by (simp add: init_simps)
qed

lemma map_of_apply_commits:
  "map_of (apply_commits es T) k =
     (case map_of (rev es) k of Some v \<Rightarrow> Some v | None \<Rightarrow> map_of T k)"
proof (induction es arbitrary: T)
  case Nil
  then show ?case by (simp add: apply_commits_def)
next
  case (Cons e es)
  obtain h a where e: "e = (h, a)" by (cases e)
  have "apply_commits (e # es) T = apply_commits es (AList.update h a T)"
    by (simp add: apply_commits_def e)
  then show ?case
    using Cons.IH [of "AList.update h a T"]
    by (auto simp: e update_conv' map_add_def split: option.splits)
qed

lemma map_of_last_commit:
  assumes "h \<notin> fst ` set es2"
  shows "map_of (rev (es1 @ (h, a) # es2)) h = Some a"
proof -
  have "map_of (rev es2) h = None"
    using assms by (simp add: map_of_eq_None_iff)
  then show ?thesis
    by (simp add: map_add_def)
qed

lemma distinct_apply_commits:
  "distinct (map fst T) \<Longrightarrow> distinct (map fst (apply_commits es T))"
  by (induction es arbitrary: T) (auto simp: apply_commits_def distinct_update)

section \<open>Lookup and the keys of the table\<close>

lemma GetRedirectedHostByName_map_of:
  "\<forall>k\<in>fst ` set tbl. NUL \<notin> set k \<Longrightarrow>
   GetRedirectedHostByName tbl out hostname =
     (case map_of tbl (c_str hostname) of Some a \<Rightarrow> (True, a) | None \<Rightarrow> (False, out))"
proof (induction tbl)
  case Nil
  then show ?case by simp
next
  case (Cons e tbl)
  obtain k a where e: "e = (k, a)" by (cases e)
  have "c_str k = k" using Cons.prems e by (intro c_str_id) simp
  then show ?case
    using Cons e by (auto simp: strcmp_eq_def)
qed

lemma commit_keys:
  assumes "commit s = Inr s'" "k \<in> fst ` set (g_redirection_map s')"
  shows "k \<in> fst ` set (g_redirection_map s) \<or> NUL \<notin> set k"
proof -
  let ?key = "c_str ((current_hostname s)[unat (work s) := NUL])"
  from assms(1) have "g_redirection_map s' = AList.update ?key (current_address s) (g_redirection_map s)"
    by (auto simp: commit_def Let_def split: if_splits)
  with assms(2) have "k \<in> {?key} \<union> fst ` set (g_redirection_map s)"
    by (simp only: dom_update)
  then show ?thesis
    using c_str_no_NUL [of "(current_hostname s)[unat (work s) := NUL]"] by auto
qed

lemma step_keys:
  "step s c = Inr s' \<Longrightarrow> k \<in> fst ` set (g_redirection_map s') \<Longrightarrow>
   k \<in> fst ` set (g_redirection_map s) \<or> NUL \<notin> set k"
proof (cases "state s")
  case HostName
  assume a: "step s c = Inr s'" "k \<in> fst ` set (g_redirection_map s')"
  show ?thesis
  proof (cases "is_ws c")
    case True
    then obtain s1 where s1: "commit s = Inr s1" "g_redirection_map s' = g_redirection_map s1"
      using a(1) HostName by (auto simp: step_HostName split: sum.splits)
    then show ?thesis using commit_keys [OF s1(1)] a(2) by simp
  next
    case False
    then show ?thesis
      using a HostName by (auto simp: step_HostName push_char_simps split: if_splits)
  qed
qed (auto simp: step_IgnoredLine step_BeginLine step_Ip step_IpDot step_WhiteSpace split: if_splits)

lemma parse_loop_keys:
  "parse_loop s xs = Inr s' \<Longrightarrow> k \<in> fst ` set (g_redirection_map s') \<Longrightarrow>
   k \<in> fst ` set (g_redirection_map s) \<or> NUL \<notin> set k"
proof (induction xs arbitrary: s)
  case Nil
  then show ?case by simp
next
  case (Cons c cs)
  show ?case
  proof (cases "c = NUL")
    case True
    then show ?thesis using Cons.prems by simp
  next
    case False
    then obtain s1 where s1: "step s c = Inr s1" "parse_loop s1 cs = Inr s'"
      using Cons.prems(1) by (auto split: sum.splits)
    from Cons.IH [OF s1(2) Cons.prems(2)] step_keys [OF s1(1)] show ?thesis by blast
  qed
qed

lemma ParseHostsFile_table_ok:
  assumes "table_ok tbl" "ParseHostsFile file_data tbl = Inr T"
  shows "table_ok T"
proof -
  from assms(2) obtain s1 s2 where s: "parse_loop (init tbl) file_data = Inr s1" "finish s1 = Inr s2"
      "T = g_redirection_map s2"
    by (auto simp: ParseHostsFile_def split: sum.splits)
  have 1: "k \<in> fst ` set (g_redirection_map s1) \<or> NUL \<notin> set k" if "k \<in> fst ` set T" for k
  proof (cases "state s1 = HostName")
    case True
    then have "commit s1 = Inr s2" using s(2) by (simp add: finish_def)
    from commit_keys [OF this] that s(3) show ?thesis by simp
  next
    case False
    then have "s2 = s1" using s(2) by (simp add: finish_def)
    then show ?thesis using that s(3) by simp
  qed
  have "NUL \<notin> set k" if "k \<in> fst ` set T" for k
  proof -
    from 1 [OF that] show ?thesis
    proof
      assume "k \<in> fst ` set (g_redirection_map s1)"
      from parse_loop_keys [OF s(1) this] have "k \<in> fst ` set tbl \<or> NUL \<notin> set k"
        by (simp add: init_simps)
      then show ?thesis using assms(1) by (auto simp: table_ok_def)
    qed
  qed
  moreover have "distinct (map fst T)"
    using ParseHostsFile_committed [OF assms(2)] assms(1)
    by (simp add: distinct_apply_commits table_ok_def)
  ultimately show ?thesis by (simp add: table_ok_def)
qed

lemma table_ok_Nil: "table_ok []"
  by (simp add: table_ok_def)

section \<open>Selection of the hosts file\<close>

lemma Log_ok:
  assumes "log_writes_succeed sv"
  shows "\<exists>f'. Log sv f msg = Inr f'"
proof -
  from assms obtain ofs where 1: "fsFileGetSize sv f = Some ofs"
    unfolding log_writes_succeed_def by blast
  from assms obtain f' where 2: "fsFileWrite sv f ofs msg = Some f'"
    unfolding log_writes_succeed_def by blast
  show ?thesis using 1 2 by (simp add: Log_def)
qed

lemma drop_bit_small: "unat (w :: u32) < 2 ^ n \<Longrightarrow> drop_bit n w = 0"
proof -
  assume a: "unat w < 2 ^ n"
  have "unat (drop_bit n w) = drop_bit n (unat w)"
    by (rule unat_drop_bit_eq)
  also have "\<dots> = unat w div 2 ^ n"
    by (rule drop_bit_eq_div)
  finally have "unat (drop_bit n w) = 0" using a by simp
  then show ?thesis by (simp add: unat_eq_0)
qed

lemma hex_digit_0: "hex_digit 0 = CHR ''0''"
  by (simp add: hex_digit_def)

lemma length_dropWhile_le: "length (dropWhile P xs) \<le> length xs"
  by (induction xs) auto

lemma fmt_04x_length:
  assumes "unat w < 0x10000"
  shows "length (fmt_04x w) = 4"
proof -
  have z: "drop_bit 16 w = 0" "drop_bit 20 w = 0" "drop_bit 24 w = 0" "drop_bit 28 w = 0"
    using assms by (simp_all add: drop_bit_small)
  define lo where "lo = [hex_digit (drop_bit 12 w), hex_digit (drop_bit 8 w), hex_digit (drop_bit 4 w),
       hex_digit (drop_bit 0 w)]"
  have "hex8 w = ''0000'' @ lo"
    using z by (simp add: hex8_def hex_digit_0 lo_def)
  then have "dropWhile (\<lambda>c. c = CHR ''0'') (hex8 w) = dropWhile (\<lambda>c. c = CHR ''0'') lo"
    by simp
  moreover have "length (dropWhile (\<lambda>c. c = CHR ''0'') lo) \<le> 4"
    using length_dropWhile_le [of "\<lambda>c. c = CHR ''0''" lo] by (simp add: lo_def)
  ultimately show ?thesis
    by (simp add: fmt_04x_def Let_def)
qed

lemma SelectHostsFile_first_existing:
  assumes "log_writes_succeed sv"
  shows "\<exists>f'. SelectHostsFile sv log_file =
           Inr (first_existing (HasAtmosphereSdFile sv) (candidates sv), f')"
proof -
  note l = Log_ok [OF assms]
  obtain f1 where f1: "Log sv log_file (''Selecting hosts file...'' @ [LF]) = Inr f1"
    using l by blast
  let ?p = "''/hosts/emummc_'' @ fmt_04x (emummc_GetActiveId sv)"
  obtain f2 where f2: "Log sv f1 (skipping_msg ?p) = Inr f2" using l by blast
  obtain f3 where f3: "Log sv f2 (skipping_msg ''/hosts/emummc'') = Inr f3" using l by blast
  obtain f4 where f4: "Log sv f1 (skipping_msg ''/hosts/sysmmc'') = Inr f4" using l by blast
  show ?thesis
    using f1 f2 f3 f4
    by (simp add: SelectHostsFile_def Let_def first_existing_def candidates_def)
qed

lemma error_is_Abort: "(e :: error) = Abort"
  by (cases e)

lemma SelectHostsFile_abort_or_path:
  "SelectHostsFile sv log_file = Inl Abort \<or>
   (\<exists>f'. SelectHostsFile sv log_file =
           Inr (first_existing (HasAtmosphereSdFile sv) (candidates sv), f'))"
  using error_is_Abort
  by (auto simp: SelectHostsFile_def Let_def first_existing_def candidates_def split: sum.splits)

section \<open>The uninitialised locals\<close>

lemma step_live_eq:
  assumes "live_eq s t" "c \<noteq> NUL"
  shows "(\<exists>e. step s c = Inl e \<and> step t c = Inl e) \<or>
         (\<exists>s' t'. step s c = Inr s' \<and> step t c = Inr t' \<and> live_eq s' t')"
proof (cases "state s")
  case WhiteSpace
  then have st: "state t = WhiteSpace" using assms(1) by (simp add: live_eq_def)
  have len: "length (current_hostname s) = 0x200" "length (current_hostname t) = 0x200"
    using assms(1) by (simp_all add: live_eq_def)
  show ?thesis
    using assms WhiteSpace st tok_of_first [OF len(1), of c] tok_of_first [OF len(2), of c]
    by (auto simp: step_WhiteSpace live_eq_def)
next
  case HostName
  then have st: "state t = HostName" using assms(1) by (simp add: live_eq_def)
  have l: "length (current_hostname s) = 0x200" "length (current_hostname t) = 0x200"
      "work s = work t" "tok_of s = tok_of t" "unat (work s) \<le> 511" "NUL \<notin> set (tok_of s)"
      "current_address s = current_address t" "g_redirection_map s = g_redirection_map t"
    using assms(1) HostName by (auto simp: live_eq_def)
  show ?thesis
  proof (cases "is_ws c")
    case True
    have cs: "commit s = Inr (s\<lparr>current_hostname := (current_hostname s)[unat (work s) := NUL],
            g_redirection_map := AList.update (tok_of s) (current_address s) (g_redirection_map s)\<rparr>)"
      using l by (intro commit_tok) simp_all
    have ct: "commit t = Inr (t\<lparr>current_hostname := (current_hostname t)[unat (work t) := NUL],
            g_redirection_map := AList.update (tok_of t) (current_address t) (g_redirection_map t)\<rparr>)"
      using l by (intro commit_tok) simp_all
    show ?thesis
      using True HostName st cs ct l by (simp add: step_HostName live_eq_def)
  next
    case False
    show ?thesis
    proof (cases "unat (work s) < 511")
      case w: True
      then have wt: "unat (work t) < 511" using l(3) by simp
      have "step s c = Inr (push_char s c)" "step t c = Inr (push_char t c)"
        using False HostName st w wt by (simp_all add: step_HostName)
      moreover have "live_eq (push_char s c) (push_char t c)"
        using l HostName st assms(2) w wt
        by (simp add: live_eq_def push_char_simps push_char_tok push_char_work)
           (simp add: push_char_def)
      ultimately show ?thesis by blast
    next
      case w: False
      then have "step s c = Inl Abort" "step t c = Inl Abort"
        using False HostName st l(3) by (simp_all add: step_HostName)
      then show ?thesis by blast
    qed
  qed
qed (use assms in \<open>auto simp: live_eq_def step_IgnoredLine step_BeginLine step_Ip step_IpDot\<close>)

lemma parse_loop_live_eq:
  "live_eq s t \<Longrightarrow>
   (\<exists>e. parse_loop s xs = Inl e \<and> parse_loop t xs = Inl e) \<or>
   (\<exists>s' t'. parse_loop s xs = Inr s' \<and> parse_loop t xs = Inr t' \<and> live_eq s' t')"
proof (induction xs arbitrary: s t)
  case Nil
  then show ?case by simp
next
  case (Cons c cs)
  show ?case
  proof (cases "c = NUL")
    case True
    then show ?thesis using Cons.prems by simp
  next
    case False
    from step_live_eq [OF Cons.prems False] show ?thesis
    proof (elim disjE exE conjE)
      fix e assume "step s c = Inl e" "step t c = Inl e"
      then show ?thesis using False by simp
    next
      fix s' t' assume a: "step s c = Inr s'" "step t c = Inr t'" "live_eq s' t'"
      from Cons.IH [OF a(3)] show ?thesis using a(1,2) False by simp
    qed
  qed
qed

lemma finish_live_eq:
  assumes "live_eq s t"
  shows "(\<exists>e. finish s = Inl e \<and> finish t = Inl e) \<or>
         (\<exists>s' t'. finish s = Inr s' \<and> finish t = Inr t' \<and>
            g_redirection_map s' = g_redirection_map t')"
proof (cases "state s = HostName")
  case True
  then have l: "state t = HostName" "length (current_hostname s) = 0x200"
      "length (current_hostname t) = 0x200"
      "work s = work t" "tok_of s = tok_of t" "unat (work s) \<le> 511" "NUL \<notin> set (tok_of s)"
      "current_address s = current_address t" "g_redirection_map s = g_redirection_map t"
    using assms by (auto simp: live_eq_def)
  have cs: "commit s = Inr (s\<lparr>current_hostname := (current_hostname s)[unat (work s) := NUL],
            g_redirection_map := AList.update (tok_of s) (current_address s) (g_redirection_map s)\<rparr>)"
    using l by (intro commit_tok) simp_all
  have ct: "commit t = Inr (t\<lparr>current_hostname := (current_hostname t)[unat (work t) := NUL],
            g_redirection_map := AList.update (tok_of t) (current_address t) (g_redirection_map t)\<rparr>)"
    using l by (intro commit_tok) simp_all
  show ?thesis using True l cs ct by (simp add: finish_def)
next
  case False
  then show ?thesis using assms by (simp add: finish_def live_eq_def)
qed

lemma parse_loop_locals_irrelevant:
  assumes "length b = 0x200"
  shows "(case parse_loop \<lparr>state = BeginLine, current_address = a, current_hostname = b,
                          work = w, g_redirection_map = tbl\<rparr> file_data of
            Inl e \<Rightarrow> Inl e
          | Inr s \<Rightarrow> (case finish s of Inl e \<Rightarrow> Inl e | Inr s' \<Rightarrow> Inr (g_redirection_map s')))
         = ParseHostsFile file_data tbl"
proof -
  let ?s = "\<lparr>state = BeginLine, current_address = a, current_hostname = b,
             work = w, g_redirection_map = tbl\<rparr>"
  have "live_eq ?s (init tbl)"
    using assms by (simp add: live_eq_def init_def)
  from parse_loop_live_eq [OF this, of file_data] show ?thesis
  proof (elim disjE exE conjE)
    fix e assume "parse_loop ?s file_data = Inl e" "parse_loop (init tbl) file_data = Inl e"
    then show ?thesis by (simp add: ParseHostsFile_def)
  next
    fix s' t' assume a: "parse_loop ?s file_data = Inr s'" "parse_loop (init tbl) file_data = Inr t'"
      "live_eq s' t'"
    from finish_live_eq [OF a(3)] show ?thesis
      using a(1,2) by (auto simp: ParseHostsFile_def)
  qed
qed

section \<open>Junk lines\<close>

lemma state_update_self: "state s = st \<Longrightarrow> s\<lparr>state := st\<rparr> = s"
  by (cases s) simp

lemma junk_line_skipped:
  assumes "state s = BeginLine" "\<not> isdigit c" "c \<noteq> LF" "c \<noteq> NUL" "LF \<notin> set l" "NUL \<notin> set l"
  shows "parse_loop s (c # l @ [LF]) = Inr s"
proof -
  have 1: "step s c = Inr (s\<lparr>state := IgnoredLine\<rparr>)"
    using assms(1,2) by (simp add: step_BeginLine)
  have "parse_loop (s\<lparr>state := IgnoredLine\<rparr>) (l @ [LF]) = Inr (s\<lparr>state := IgnoredLine\<rparr>\<lparr>state := BeginLine\<rparr>)"
    using assms(5,6) by (intro parse_loop_ignored_line) simp_all
  then have "parse_loop s (c # l @ [LF]) = Inr (s\<lparr>state := BeginLine\<rparr>)"
    using 1 assms(4) by simp
  then show ?thesis
    using state_update_self [OF assms(1)] by simp
qed

lemma junk_line_deleted:
  assumes "NUL \<notin> set pre" "parse_loop (init tbl) pre = Inr s" "state s = BeginLine"
    and "\<not> isdigit c" "c \<noteq> LF" "c \<noteq> NUL" "LF \<notin> set l" "NUL \<notin> set l"
  shows "ParseHostsFile (pre @ (c # l @ [LF]) @ rest) tbl = ParseHostsFile (pre @ rest) tbl"
proof -
  have n: "NUL \<notin> set (c # l @ [LF])"
    using assms(6,8) by (simp add: special_distinct)
  have "parse_loop s ((c # l @ [LF]) @ rest) = parse_loop s rest"
    using n junk_line_skipped [OF assms(3-8)] by (rule parse_loop_seq)
  then have "parse_loop (init tbl) (pre @ (c # l @ [LF]) @ rest) = parse_loop (init tbl) (pre @ rest)"
    using parse_loop_seq [OF assms(1,2)] by simp
  then show ?thesis
    by (simp add: ParseHostsFile_def)
qed

section \<open>The claims\<close>

text \<open>
  C1, as stated: \<^verbatim>\<open>ParseHostsFile\<close> aborts when a hostname token reaches 511 bytes, so that a
  hostname of 510 bytes is read and one of 511 bytes aborts. The buffer has \<^verbatim>\<open>0x200\<close> bytes
  and the guard \<^verbatim>\<open>work < sizeof(current_hostname) - 1\<close> is checked before a byte is stored at
  index \<^verbatim>\<open>work\<close>, so the 511th byte of a token is still stored (at index 510) and terminated
  at index 511: a hostname of exactly 511 bytes is committed.
\<close>

theorem hostname_511_bytes_counterexample:
  "length (replicate 511 (CHR ''a'')) = 511 \<and>
   ParseHostsFile (''1.1.1.1 '' @ replicate 511 (CHR ''a'') @ [LF]) [] =
     Inr [(replicate 511 (CHR ''a''), 0x01010101)]"
proof -
  have "ParseHostsFile (''1.1.1.1 '' @ replicate 511 (CHR ''a'') @ [LF]) [] =
      (if length (replicate 511 (CHR ''a'')) \<le> 511
       then Inr (AList.update (replicate 511 (CHR ''a''))
             (current_address ((init [])\<lparr>current_address := 0x01010101, work := 0, state := WhiteSpace\<rparr>))
             (g_redirection_map ((init [])\<lparr>current_address := 0x01010101, work := 0, state := WhiteSpace\<rparr>)))
       else Inl Abort)"
    by (rule ParseHostsFile_token [OF _ scan_1111])
       (simp_all add: is_token_replicate is_ws_def char_defs)
  then show ?thesis by (simp add: init_simps)
qed

text \<open>
  C1, amended: \<^verbatim>\<open>ParseHostsFile\<close> aborts exactly when the text (up to its terminator) holds,
  at a place where the scan is between the tokens of an entry (state \<open>WhiteSpace\<close>), a run
  of 512 bytes none of which is a space, tab, carriage return or newline, that is, when a
  hostname token reaches 512 bytes without a terminator. In particular a hostname token of
  at most 511 bytes followed by a whitespace byte is committed, and one of 512 or more
  bytes aborts.
\<close>

theorem hostname_abort_at_512_bytes:
  "(ParseHostsFile file_data tbl = Inl Abort \<longleftrightarrow>
     (\<exists>p tok rest s. c_str file_data = p @ tok @ rest \<and> length tok = 512 \<and>
        (\<forall>c\<in>set tok. \<not> is_ws c) \<and> parse_loop (init tbl) p = Inr s \<and> state s = WhiteSpace)) \<and>
   (\<forall>pre s h t. NUL \<notin> set pre \<and> parse_loop (init tbl) pre = Inr s \<and> state s = WhiteSpace \<and>
        is_token h \<and> is_ws t \<longrightarrow>
      ParseHostsFile (pre @ h @ [t]) tbl =
        (if length h \<le> 511
         then Inr (AList.update h (current_address s) (g_redirection_map s))
         else Inl Abort))"
  using ParseHostsFile_abort_iff [of file_data tbl] ParseHostsFile_token [of _ tbl] by blast

theorem hostname_abort_at_512_bytes_witness:
  "ParseHostsFile (''1.1.1.1 '' @ replicate 512 (CHR ''a'')) [] = Inl Abort \<and>
   ParseHostsFile (''1.1.1.1 '' @ replicate 510 (CHR ''a'') @ [LF]) [] =
     Inr [(replicate 510 (CHR ''a''), 0x01010101)] \<and>
   ParseHostsFile (''1.1.1.1 '' @ replicate 512 (CHR ''a'') @ [LF]) [] = Inl Abort"
proof -
  note main = hostname_abort_at_512_bytes [of "''1.1.1.1 '' @ replicate 512 (CHR ''a'')" "[]"]
  let ?s = "(init [])\<lparr>current_address := 0x01010101, work := 0, state := WhiteSpace\<rparr>"
  have n: "NUL \<notin> set (''1.1.1.1 '' @ replicate 512 (CHR ''a''))"
    by (simp add: char_defs)
  have "c_str (''1.1.1.1 '' @ replicate 512 (CHR ''a'')) = ''1.1.1.1 '' @ replicate 512 (CHR ''a'') @ []"
    using c_str_id [OF n] by simp
  moreover have "length (replicate 512 (CHR ''a'')) = 512" "\<forall>c\<in>set (replicate 512 (CHR ''a'')). \<not> is_ws c"
    by (simp_all add: is_ws_def char_defs)
  moreover have "state ?s = WhiteSpace" by simp
  ultimately have 1: "ParseHostsFile (''1.1.1.1 '' @ replicate 512 (CHR ''a'')) [] = Inl Abort"
    using main scan_1111 by blast
  have pre: "NUL \<notin> set ''1.1.1.1 ''" "is_ws LF"
    "is_token (replicate 510 (CHR ''a''))" "is_token (replicate 512 (CHR ''a''))"
    by (simp_all add: is_token_replicate is_ws_def char_defs)
  have st: "state ?s = WhiteSpace" by simp
  from main have tok: "\<And>h t. NUL \<notin> set ''1.1.1.1 '' \<and> parse_loop (init []) ''1.1.1.1 '' = Inr ?s \<and>
        state ?s = WhiteSpace \<and> is_token h \<and> is_ws t \<longrightarrow>
      ParseHostsFile (''1.1.1.1 '' @ h @ [t]) [] =
        (if length h \<le> 511
         then Inr (AList.update h (current_address ?s) (g_redirection_map ?s))
         else Inl Abort)"
    by blast
  have "ParseHostsFile (''1.1.1.1 '' @ replicate 510 (CHR ''a'') @ [LF]) [] =
        (if length (replicate 510 (CHR ''a'')) \<le> 511
         then Inr (AList.update (replicate 510 (CHR ''a'')) (current_address ?s) (g_redirection_map ?s))
         else Inl Abort)"
    using tok [of "replicate 510 (CHR ''a'')" LF] pre scan_1111 st by blast
  then have 2: "ParseHostsFile (''1.1.1.1 '' @ replicate 510 (CHR ''a'') @ [LF]) [] =
     Inr [(replicate 510 (CHR ''a''), 0x01010101)]"
    by (simp add: init_simps)
  have "ParseHostsFile (''1.1.1.1 '' @ replicate 512 (CHR ''a'') @ [LF]) [] =
        (if length (replicate 512 (CHR ''a'')) \<le> 511
         then Inr (AList.update (replicate 512 (CHR ''a'')) (current_address ?s) (g_redirection_map ?s))
         else Inl Abort)"
    using tok [of "replicate 512 (CHR ''a'')" LF] pre scan_1111 st by blast
  then have 3: "ParseHostsFile (''1.1.1.1 '' @ replicate 512 (CHR ''a'') @ [LF]) [] = Inl Abort"
    by simp
  show ?thesis using 1 2 3 by simp
qed

text \<open>
  C2. Take a line read from its beginning: the address text \<open>d1.d2.d3.d4\<close> of four runs of
  digits, a space or tab, and hostname tokens separated by blanks. Every hostname \<open>h\<close> of
  the line, whether a whitespace byte or the end of the text follows it, is stored with the
  32-bit address whose value is
  \<open>(a mod 256) + (b mod 256) * 2^8 + (c mod 256) * 2^16 + (d mod 256) * 2^24\<close>, where
  \<open>a, b, c, d\<close> are the decimal values of the four runs, of any length: the first octet is
  the lowest-order byte and no octet is rejected for being over 255. For a line with one
  hostname the table is the former table with exactly that entry written.
\<close>

theorem address_octets_low_byte_first:
  assumes "NUL \<notin> set pre" "parse_loop (init tbl) pre = Inr s" "state s = BeginLine"
    and "is_digits d1" "is_digits d2" "is_digits d3" "is_digits d4" "sep = SPC \<or> sep = TAB"
    and "\<forall>c\<in>set pad. is_blank c"
    and "\<forall>(h, w)\<in>set hws. is_token h \<and> length h \<le> 511 \<and> is_blanks w"
    and "is_token h" "length h \<le> 511"
  shows "\<exists>A. unat A = dec_val d1 mod 256 + (dec_val d2 mod 256) * 2 ^ 8
                  + (dec_val d3 mod 256) * 2 ^ 16 + (dec_val d4 mod 256) * 2 ^ 24 \<and>
           (\<forall>t. is_ws t \<longrightarrow>
              (\<exists>T. ParseHostsFile
                     (pre @ ip_text d1 d2 d3 d4 @ [sep] @ pad @ hosts_text hws @ h @ [t]) tbl = Inr T \<and>
                   map_of T h = Some A)) \<and>
           (\<exists>T. ParseHostsFile
                  (pre @ ip_text d1 d2 d3 d4 @ [sep] @ pad @ hosts_text hws @ h) tbl = Inr T \<and>
                map_of T h = Some A) \<and>
           (hws = [] \<longrightarrow>
              ParseHostsFile (pre @ ip_text d1 d2 d3 d4 @ [sep] @ pad @ h @ [LF]) tbl =
                Inr (AList.update h A (g_redirection_map s)))"
proof -
  let ?A = "octets_addr (dec_val d1) (dec_val d2) (dec_val d3) (dec_val d4)"
  let ?T = "commit_all (map fst hws @ [h]) ?A (g_redirection_map s)"
  have m: "map_of ?T h = Some ?A"
    by (simp add: map_of_commit_all)
  have 1: "\<exists>T. ParseHostsFile
                 (pre @ ip_text d1 d2 d3 d4 @ [sep] @ pad @ hosts_text hws @ h @ [t]) tbl = Inr T \<and>
               map_of T h = Some ?A" if "is_ws t" for t
    using ParseHostsFile_hosts [OF assms that] m by simp
  have 2: "\<exists>T. ParseHostsFile
                 (pre @ ip_text d1 d2 d3 d4 @ [sep] @ pad @ hosts_text hws @ h) tbl = Inr T \<and>
               map_of T h = Some ?A"
    using ParseHostsFile_hosts_eof [OF assms] m by simp
  have "is_ws LF" by (simp add: is_ws_def)
  then have 3: "ParseHostsFile (pre @ ip_text d1 d2 d3 d4 @ [sep] @ pad @ h @ [LF]) tbl =
                Inr (AList.update h ?A (g_redirection_map s))"
    using assms(1-9,11,12) by (intro ParseHostsFile_entry)
  show ?thesis
    using unat_octets_addr [of "dec_val d1" "dec_val d2" "dec_val d3" "dec_val d4"] 1 2 3 by blast
qed

text \<open>
  The instance of the specification: \<^verbatim>\<open>"127.0.0.1 a.com\n"\<close> parsed into the empty table
  gives exactly one entry, \<^verbatim>\<open>a.com\<close> with the value \<^verbatim>\<open>0x0100007F\<close>. Octets over 255 are
  reduced modulo 256: \<^verbatim>\<open>999.256.1.4294967297\<close> is stored as \<^verbatim>\<open>0x010100E7\<close>.
\<close>

theorem address_octets_low_byte_first_witness:
  "ParseHostsFile (''127.0.0.1 a.com'' @ [LF]) [] = Inr [(''a.com'', 0x0100007F)] \<and>
   ParseHostsFile (''999.256.1.4294967297 a.com'' @ [LF]) [] = Inr [(''a.com'', 0x010100E7)]"
proof -
  have d: "is_digits ''127''" "is_digits ''0''" "is_digits ''1''"
    "is_digits ''999''" "is_digits ''256''" "is_digits ''4294967297''"
    by (simp_all add: is_digits_simps isdigit_def)
  have h: "is_token ''a.com''" "length ''a.com'' \<le> 511" "\<forall>c\<in>set []. is_blank c"
    "\<forall>(h, w)\<in>set []. is_token h \<and> length h \<le> 511 \<and> is_blanks w"
    by (simp_all add: is_token_def is_ws_def NUL_def SPC_def CR_def LF_def TAB_def)
  have p: "NUL \<notin> set []" "parse_loop (init []) [] = Inr (init [])" "state (init []) = BeginLine"
    by (simp_all add: init_simps)
  from address_octets_low_byte_first [OF p d(1) d(2) d(2) d(3) disjI1 [OF refl] h(3) h(4) h(1) h(2)]
  obtain A :: InAddrT where A: "unat A = dec_val ''127'' mod 256 + (dec_val ''0'' mod 256) * 2 ^ 8
                  + (dec_val ''0'' mod 256) * 2 ^ 16 + (dec_val ''1'' mod 256) * 2 ^ 24"
     "ParseHostsFile ([] @ ip_text ''127'' ''0'' ''0'' ''1'' @ [SPC] @ [] @ ''a.com'' @ [LF]) [] =
               Inr (AList.update ''a.com'' A (g_redirection_map (init [])))"
    by blast
  from A(1) have "unat A = unat (0x0100007F :: InAddrT)"
    by (simp add: dec_val_def)
  then have "A = 0x0100007F"
    by (simp only: word_unat_eq_iff)
  then have 1: "ParseHostsFile (''127.0.0.1 a.com'' @ [LF]) [] = Inr [(''a.com'', 0x0100007F)]"
    using A(2) by (simp add: ip_text_def init_simps DOT_def SPC_def)
  from address_octets_low_byte_first [OF p d(4) d(5) d(3) d(6) disjI1 [OF refl] h(3) h(4) h(1) h(2)]
  obtain B :: InAddrT where B: "unat B = dec_val ''999'' mod 256 + (dec_val ''256'' mod 256) * 2 ^ 8
                  + (dec_val ''1'' mod 256) * 2 ^ 16 + (dec_val ''4294967297'' mod 256) * 2 ^ 24"
     "ParseHostsFile ([] @ ip_text ''999'' ''256'' ''1'' ''4294967297'' @ [SPC] @ [] @ ''a.com'' @ [LF]) [] =
               Inr (AList.update ''a.com'' B (g_redirection_map (init [])))"
    by blast
  from B(1) have "unat B = unat (0x010100E7 :: InAddrT)"
    by (simp add: dec_val_def)
  then have "B = 0x010100E7"
    by (simp only: word_unat_eq_iff)
  then have 2: "ParseHostsFile (''999.256.1.4294967297 a.com'' @ [LF]) [] = Inr [(''a.com'', 0x010100E7)]"
    using B(2) by (simp add: ip_text_def init_simps DOT_def SPC_def)
  show ?thesis using 1 2 by simp
qed

text \<open>
  C3. The claim: a line that does not begin with a digit adds no entry and does not change
  how later lines are read, so that deleting it leaves the resulting table unchanged. The
  code does not do this. The empty first line of the first text below does not begin with a
  digit, and with it the entry of the next line is lost, while the text without that line
  yields the entry; in the third text the comment line is what lets the entry through.
  What holds is lemma \<open>junk_line_deleted\<close>: a line with at least one byte before its
  newline, the first not a digit, read in state \<open>BeginLine\<close>, can be deleted.
\<close>

theorem blank_line_drops_next_entry:
  "ParseHostsFile ([LF] @ ''127.0.0.1 a.com'' @ [LF]) [] = Inr [] \<and>
   ParseHostsFile (''127.0.0.1 a.com'' @ [LF]) [] = Inr [(''a.com'', 0x0100007F)] \<and>
   ParseHostsFile ([LF] @ ''# comment'' @ [LF] @ ''127.0.0.1 a.com'' @ [LF]) [] =
     Inr [(''a.com'', 0x0100007F)]"
  by code_simp

text \<open>
  C4. A newline read in state \<open>BeginLine\<close> or in one of the address states
  \<open>Ip1\<close>, \<open>IpDot1\<close>, \<open>Ip2\<close>, \<open>IpDot2\<close>, \<open>Ip3\<close>, \<open>IpDot3\<close>, \<open>Ip4\<close> moves the scan to
  \<open>IgnoredLine\<close>; the whole following line \<open>l\<close> is then consumed without any effect but
  the return to \<open>BeginLine\<close> at its newline, so it adds no entry, whatever it contains.
\<close>

theorem newline_before_hostname_ignores_next_line:
  assumes "NUL \<notin> set pre" "parse_loop (init tbl) pre = Inr s"
    and "state s \<in> {BeginLine, Ip1, IpDot1, Ip2, IpDot2, Ip3, IpDot3, Ip4}"
    and "LF \<notin> set l" "NUL \<notin> set l"
  shows "step s LF = Inr (s\<lparr>state := IgnoredLine\<rparr>) \<and>
         parse_loop (init tbl) (pre @ LF # l @ [LF]) = Inr (s\<lparr>state := BeginLine\<rparr>) \<and>
         ParseHostsFile (pre @ LF # l @ [LF]) tbl = Inr (g_redirection_map s) \<and>
         ParseHostsFile pre tbl = Inr (g_redirection_map s)"
proof -
  have 1: "step s LF = Inr (s\<lparr>state := IgnoredLine\<rparr>)"
    using assms(3) by (rule step_LF_address_states)
  have "parse_loop (s\<lparr>state := IgnoredLine\<rparr>) (l @ [LF]) = Inr (s\<lparr>state := IgnoredLine\<rparr>\<lparr>state := BeginLine\<rparr>)"
    using assms(4,5) by (intro parse_loop_ignored_line) simp_all
  then have "parse_loop s (LF # l @ [LF]) = Inr (s\<lparr>state := BeginLine\<rparr>)"
    using 1 by (simp add: special_distinct)
  then have 2: "parse_loop (init tbl) (pre @ LF # l @ [LF]) = Inr (s\<lparr>state := BeginLine\<rparr>)"
    using parse_loop_seq [OF assms(1,2), of "LF # l @ [LF]"] by simp
  have 3: "ParseHostsFile (pre @ LF # l @ [LF]) tbl = Inr (g_redirection_map s)"
    using ParseHostsFile_not_HostName [OF 2] by simp
  have "state s \<noteq> HostName" using assms(3) by auto
  then have 4: "ParseHostsFile pre tbl = Inr (g_redirection_map s)"
    using assms(2) by (intro ParseHostsFile_not_HostName)
  show ?thesis using 1 2 3 4 by simp
qed

text \<open>
  After an empty line, and after a line that holds only a dotted quad, the well-formed entry
  on the next line is lost.
\<close>

theorem newline_before_hostname_ignores_next_line_witness:
  "ParseHostsFile (LF # ''1.2.3.4 a.com'' @ [LF]) [] = Inr [] \<and>
   ParseHostsFile (''1.2.3.4'' @ LF # ''5.6.7.8 a.com'' @ [LF]) [] = Inr [] \<and>
   ParseHostsFile (''5.6.7.8 a.com'' @ [LF]) [] = Inr [(''a.com'', 0x08070605)]"
proof -
  have a: "NUL \<notin> set []" "parse_loop (init []) [] = Inr (init [])"
    "state (init []) \<in> {BeginLine, Ip1, IpDot1, Ip2, IpDot2, Ip3, IpDot3, Ip4}"
    "LF \<notin> set ''1.2.3.4 a.com''" "NUL \<notin> set ''1.2.3.4 a.com''"
    by (simp_all add: init_simps char_defs)
  have 1: "ParseHostsFile (LF # ''1.2.3.4 a.com'' @ [LF]) [] = Inr []"
    using newline_before_hostname_ignores_next_line [OF a] by (simp add: init_simps)
  have "case parse_loop (init []) ''1.2.3.4'' of Inl e \<Rightarrow> False | Inr s' \<Rightarrow> state s' = Ip4"
    by code_simp
  then obtain s where s: "parse_loop (init []) ''1.2.3.4'' = Inr s" "state s = Ip4"
    using parse_loop_result_state by blast
  have b: "NUL \<notin> set ''1.2.3.4''" "LF \<notin> set ''5.6.7.8 a.com''" "NUL \<notin> set ''5.6.7.8 a.com''"
    by (simp_all add: char_defs)
  have c: "state s \<in> {BeginLine, Ip1, IpDot1, Ip2, IpDot2, Ip3, IpDot3, Ip4}"
    using s(2) by simp
  have "ParseHostsFile ''1.2.3.4'' [] = Inr []"
    by code_simp
  then have 2: "ParseHostsFile (''1.2.3.4'' @ LF # ''5.6.7.8 a.com'' @ [LF]) [] = Inr []"
    using newline_before_hostname_ignores_next_line [OF b(1) s(1) c b(2,3)] by simp
  have 3: "ParseHostsFile (''5.6.7.8 a.com'' @ [LF]) [] = Inr [(''a.com'', 0x08070605)]"
    by code_simp
  show ?thesis using 1 2 3 by simp
qed

text \<open>
  C5. A line made of one address and several hostname tokens separated by blanks (spaces,
  tabs, carriage returns), read at the beginning of a line, commits every token with the
  address of the line: the table is the one before the line updated once per token, in
  order; afterwards every token of the line is mapped to that address, every other key is
  as before, and the keys are the former keys together with the tokens.
\<close>

theorem hostnames_share_address:
  assumes "NUL \<notin> set pre" "parse_loop (init tbl) pre = Inr s" "state s = BeginLine"
    and "is_digits d1" "is_digits d2" "is_digits d3" "is_digits d4" "sep = SPC \<or> sep = TAB"
    and "\<forall>c\<in>set pad. is_blank c"
    and "\<forall>(h, w)\<in>set hws. is_token h \<and> length h \<le> 511 \<and> is_blanks w"
    and "is_token h" "length h \<le> 511" "is_ws t"
  shows "\<exists>A T. unat A = dec_val d1 mod 256 + (dec_val d2 mod 256) * 2 ^ 8
                  + (dec_val d3 mod 256) * 2 ^ 16 + (dec_val d4 mod 256) * 2 ^ 24 \<and>
           ParseHostsFile (pre @ ip_text d1 d2 d3 d4 @ [sep] @ pad @ hosts_text hws @ h @ [t]) tbl =
             Inr T \<and>
           T = commit_all (map fst hws @ [h]) A (g_redirection_map s) \<and>
           (\<forall>k\<in>set (map fst hws @ [h]). map_of T k = Some A) \<and>
           (\<forall>k. k \<notin> set (map fst hws @ [h]) \<longrightarrow> map_of T k = map_of (g_redirection_map s) k) \<and>
           fst ` set T = fst ` set (g_redirection_map s) \<union> set (map fst hws @ [h])"
proof -
  let ?A = "octets_addr (dec_val d1) (dec_val d2) (dec_val d3) (dec_val d4)"
  let ?T = "commit_all (map fst hws @ [h]) ?A (g_redirection_map s)"
  have "ParseHostsFile (pre @ ip_text d1 d2 d3 d4 @ [sep] @ pad @ hosts_text hws @ h @ [t]) tbl = Inr ?T"
    using assms by (rule ParseHostsFile_hosts)
  moreover have "\<forall>k\<in>set (map fst hws @ [h]). map_of ?T k = Some ?A"
    by (simp add: map_of_commit_all)
  moreover have "\<forall>k. k \<notin> set (map fst hws @ [h]) \<longrightarrow> map_of ?T k = map_of (g_redirection_map s) k"
    by (simp add: map_of_commit_all)
  moreover have "fst ` set ?T = fst ` set (g_redirection_map s) \<union> set (map fst hws @ [h])"
    by (rule keys_commit_all)
  ultimately show ?thesis
    using unat_octets_addr [of "dec_val d1" "dec_val d2" "dec_val d3" "dec_val d4"] by blast
qed

theorem hostnames_share_address_witness:
  "ParseHostsFile (''10.0.0.1 a.com b.com'' @ [LF]) [] =
     Inr [(''a.com'', 0x0100000A), (''b.com'', 0x0100000A)]"
proof -
  have d: "is_digits ''10''" "is_digits ''0''" "is_digits ''1''"
    by (simp_all add: is_digits_simps isdigit_def)
  have h: "\<forall>(h, w)\<in>set [(''a.com'', [SPC])]. is_token h \<and> length h \<le> 511 \<and> is_blanks w"
    "is_token ''b.com''" "length ''b.com'' \<le> 511" "is_ws LF" "\<forall>c\<in>set []. is_blank c"
    by (simp_all add: is_token_simps is_blanks_def is_blank_def is_ws_def char_defs)
  have p: "NUL \<notin> set []" "parse_loop (init []) [] = Inr (init [])" "state (init []) = BeginLine"
    by (simp_all add: init_simps)
  from hostnames_share_address [OF p d(1) d(2) d(2) d(3) disjI1 [OF refl] h(5) h(1) h(2) h(3) h(4)]
  obtain A :: InAddrT and T where A: "unat A = dec_val ''10'' mod 256 + (dec_val ''0'' mod 256) * 2 ^ 8
                  + (dec_val ''0'' mod 256) * 2 ^ 16 + (dec_val ''1'' mod 256) * 2 ^ 24"
     "ParseHostsFile ([] @ ip_text ''10'' ''0'' ''0'' ''1'' @ [SPC] @ [] @ hosts_text [(''a.com'', [SPC])]
         @ ''b.com'' @ [LF]) [] = Inr T"
     "T = commit_all (map fst [(''a.com'', [SPC])] @ [''b.com'']) A (g_redirection_map (init []))"
    by (elim exE conjE)
  from A(1) have "unat A = unat (0x0100000A :: InAddrT)"
    by (simp add: dec_val_def)
  then have "A = 0x0100000A"
    by (simp only: word_unat_eq_iff)
  then show ?thesis
    using A(2,3) by (simp add: ip_text_def hosts_text_def commit_all_def init_simps char_defs)
qed

text \<open>
  C6. Every write to the table is insert-or-overwrite, so the last write wins. The table
  after a call is the table before it with the entries \<open>committed\<close> by the call applied in
  order; a hostname is mapped to the address of its latest commit of the call, whatever
  the table held before (also the result of an earlier call), and a hostname that the call
  does not commit keeps what it had. Keys stay unique.
\<close>

theorem last_write_wins:
  assumes "ParseHostsFile file_data tbl = Inr T"
  shows "T = apply_commits (committed file_data) tbl \<and>
         (\<forall>h a es1 es2. committed file_data = es1 @ (h, a) # es2 \<and> h \<notin> fst ` set es2 \<longrightarrow>
            map_of T h = Some a) \<and>
         (\<forall>h. h \<notin> fst ` set (committed file_data) \<longrightarrow> map_of T h = map_of tbl h) \<and>
         (distinct (map fst tbl) \<longrightarrow> distinct (map fst T))"
proof -
  have T: "T = apply_commits (committed file_data) tbl"
    using assms by (rule ParseHostsFile_committed)
  have "map_of T h = Some a" if "committed file_data = es1 @ (h, a) # es2" "h \<notin> fst ` set es2"
    for h a es1 es2
    unfolding T map_of_apply_commits that(1) using map_of_last_commit [OF that(2)] by simp
  moreover have "map_of T h = map_of tbl h" if "h \<notin> fst ` set (committed file_data)" for h
  proof -
    have "map_of (rev (committed file_data)) h = None"
      using that by (simp add: map_of_eq_None_iff)
    then show ?thesis unfolding T map_of_apply_commits by simp
  qed
  moreover have "distinct (map fst tbl) \<longrightarrow> distinct (map fst T)"
    unfolding T by (simp add: distinct_apply_commits)
  ultimately show ?thesis using T by blast
qed

theorem last_write_wins_witness:
  "committed (''1.1.1.1 a.com'' @ [LF] @ ''2.2.2.2 a.com'' @ [LF]) =
     [(''a.com'', 0x01010101)] @ (''a.com'', 0x02020202) # [] \<and>
   ParseHostsFile (''1.1.1.1 a.com'' @ [LF] @ ''2.2.2.2 a.com'' @ [LF]) [(''a.com'', 0x05050505)] =
     Inr [(''a.com'', 0x02020202)] \<and>
   map_of [(''a.com'', 0x02020202 :: InAddrT)] ''a.com'' = Some 0x02020202"
proof -
  let ?text = "''1.1.1.1 a.com'' @ [LF] @ ''2.2.2.2 a.com'' @ [LF]"
  have c: "committed ?text = [(''a.com'', 0x01010101)] @ (''a.com'', 0x02020202) # []"
    by code_simp
  have p: "ParseHostsFile ?text [(''a.com'', 0x05050505)] = Inr [(''a.com'', 0x02020202)]"
    by code_simp
  have "''a.com'' \<notin> fst ` set ([] :: (string \<times> InAddrT) list)"
    by simp
  then have "map_of [(''a.com'', 0x02020202 :: InAddrT)] ''a.com'' = Some 0x02020202"
    using last_write_wins [OF p] c by blast
  then show ?thesis using c p by simp
qed

text \<open>
  C7. When the text ends while a hostname token is being read (the scan of the whole text
  stops in state \<open>HostName\<close>), the token is committed with the address of its line: the
  result is the one of the same text followed by a newline, and it is the table at the
  start of the token updated with the token and the address current there.
\<close>

theorem eof_commits_hostname:
  assumes "NUL \<notin> set p" "parse_loop (init tbl) p = Inr s" "state s = HostName"
  shows "ParseHostsFile (p @ [LF]) tbl = ParseHostsFile p tbl \<and>
         (\<exists>p' h s1. p = p' @ h \<and> is_token h \<and>
            parse_loop (init tbl) p' = Inr s1 \<and> state s1 = WhiteSpace \<and>
            ParseHostsFile p tbl =
              Inr (AList.update h (current_address s1) (g_redirection_map s1)))"
proof -
  have inv: "hn_inv s"
    using hn_inv_init assms(2) by (rule parse_loop_hn_inv)
  have "token_started (init tbl) p s"
    using assms(1) hn_inv_init _ assms(2,3) by (rule reach_token_started) (simp add: init_simps)
  then obtain p' s1 where t: "p = p' @ tok_of s" "parse_loop (init tbl) p' = Inr s1"
      "state s1 = WhiteSpace" "current_address s1 = current_address s"
      "g_redirection_map s1 = g_redirection_map s"
    unfolding token_started_def by blast
  have "is_token (tok_of s)"
    using hn_inv_token [OF inv assms(3)] by simp
  moreover have "ParseHostsFile p tbl =
      Inr (AList.update (tok_of s) (current_address s1) (g_redirection_map s1))"
    using ParseHostsFile_eof_in_token(1) [OF assms] t(4,5) by simp
  ultimately show ?thesis
    using ParseHostsFile_eof_in_token(2) [OF assms] t(1,2,3) by blast
qed

theorem eof_commits_hostname_witness:
  "ParseHostsFile ''1.2.3.4 a.com'' [] = ParseHostsFile (''1.2.3.4 a.com'' @ [LF]) [] \<and>
   ParseHostsFile ''1.2.3.4 a.com'' [] = Inr [(''a.com'', 0x04030201)]"
proof -
  have "\<exists>s'. parse_loop (init []) (ip_text ''1'' ''2'' ''3'' ''4'' @ [SPC] @ ''a.com'') = Inr s' \<and>
             state s' = HostName"
    by (rule scan_ip_token)
       (simp_all add: init_simps is_digits_simps is_token_simps isdigit_def is_ws_def char_defs)
  then obtain s where s: "parse_loop (init []) ''1.2.3.4 a.com'' = Inr s" "state s = HostName"
    by (auto simp: ip_text_def char_defs)
  have n: "NUL \<notin> set ''1.2.3.4 a.com''"
    by (simp add: char_defs)
  have "ParseHostsFile (''1.2.3.4 a.com'' @ [LF]) [] = Inr [(''a.com'', 0x04030201)]"
    by code_simp
  then show ?thesis
    using eof_commits_hostname [OF n s] by simp
qed

text \<open>
  C8. \<^verbatim>\<open>SelectHostsFile\<close> has no failing result of its own: whatever the services do, it
  either returns the path below or the process aborts inside \<^verbatim>\<open>Log\<close>, and while the writes
  to the diagnostic log succeed (a failing write aborts, like every other filesystem failure
  of the initialisation) it returns one path for every file-existence oracle. The path is
  the first existing one of the candidates before the fallback, which are
  \<^verbatim>\<open>/hosts/emummc_\<close> followed by the identifier in the format \<^verbatim>\<open>%04x\<close> and then
  \<^verbatim>\<open>/hosts/emummc\<close> when emulated storage is active, and \<^verbatim>\<open>/hosts/sysmmc\<close> when it is
  not; it is \<^verbatim>\<open>/hosts/default\<close> when none of them exists. The identifier is printed with
  exactly four digits when it is below \<^verbatim>\<open>0x10000\<close>.
\<close>

theorem select_first_existing_candidate:
  assumes "log_writes_succeed sv"
  shows "(\<exists>f'. SelectHostsFile sv log_file =
            Inr (first_existing (HasAtmosphereSdFile sv) (candidates sv), f')) \<and>
         (\<forall>sv' :: 'f services.
            SelectHostsFile sv' log_file = Inl Abort \<or>
            (\<exists>f'. SelectHostsFile sv' log_file =
                Inr (first_existing (HasAtmosphereSdFile sv') (candidates sv'), f'))) \<and>
         candidates sv =
           (if emummc_IsActive sv
            then [''/hosts/emummc_'' @ fmt_04x (emummc_GetActiveId sv), ''/hosts/emummc'',
                  ''/hosts/default'']
            else [''/hosts/sysmmc'', ''/hosts/default'']) \<and>
         ((\<forall>p\<in>set (butlast (candidates sv)). \<not> HasAtmosphereSdFile sv p) \<longrightarrow>
            (\<exists>f'. SelectHostsFile sv log_file = Inr (''/hosts/default'', f'))) \<and>
         (unat (emummc_GetActiveId sv) < 0x10000 \<longrightarrow> length (fmt_04x (emummc_GetActiveId sv)) = 4)"
proof -
  from SelectHostsFile_first_existing [OF assms] obtain f' where
    f: "SelectHostsFile sv log_file = Inr (first_existing (HasAtmosphereSdFile sv) (candidates sv), f')"
    by blast
  have "first_existing (HasAtmosphereSdFile sv) (candidates sv) = ''/hosts/default''"
    if "\<forall>p\<in>set (butlast (candidates sv)). \<not> HasAtmosphereSdFile sv p"
    using that by (simp add: first_existing_def candidates_def split: if_splits)
  then show ?thesis
    using f SelectHostsFile_abort_or_path [where log_file=log_file]
    by (auto simp: candidates_def fmt_04x_length)
qed

theorem select_first_existing_candidate_witness:
  "(\<exists>f'. SelectHostsFile (mem_services (\<lambda>p. False) True 0x12) [] = Inr (''/hosts/default'', f')) \<and>
   (\<exists>f'. SelectHostsFile
           (mem_services (\<lambda>p. p = ''/hosts/emummc_0012'' \<or> p = ''/hosts/emummc'') True 0x12) [] =
         Inr (''/hosts/emummc_0012'', f')) \<and>
   (\<exists>f'. SelectHostsFile (mem_services (\<lambda>p. p = ''/hosts/emummc'') True 0x12) [] =
         Inr (''/hosts/emummc'', f')) \<and>
   (\<exists>f'. SelectHostsFile
           (mem_services (\<lambda>p. p = ''/hosts/emummc_0012'' \<or> p = ''/hosts/sysmmc'') False 0x12) [] =
         Inr (''/hosts/sysmmc'', f'))"
proof -
  have ok: "log_writes_succeed (mem_services ex active ident)" for ex active ident
    by (simp add: log_writes_succeed_def mem_services_def)
  have f: "fmt_04x 0x12 = ''0012''"
    by code_simp
  have h: "HasAtmosphereSdFile (mem_services ex active ident) = ex" for ex active ident
    by (simp add: mem_services_def)
  have "\<exists>f'. SelectHostsFile (mem_services ex active 0x12) [] =
      Inr (first_existing (HasAtmosphereSdFile (mem_services ex active 0x12))
             (candidates (mem_services ex active 0x12)), f')" for ex active
    using select_first_existing_candidate [OF ok, where log_file="[]"] by (rule conjunct1)
  then have sel: "\<exists>f'. SelectHostsFile (mem_services ex active 0x12) [] =
      Inr (first_existing ex (candidates (mem_services ex active 0x12)), f')" for ex active
    by (simp only: h)
  have c: "candidates (mem_services ex True 0x12) =
             [''/hosts/emummc_0012'', ''/hosts/emummc'', ''/hosts/default'']"
      "candidates (mem_services ex False 0x12) = [''/hosts/sysmmc'', ''/hosts/default'']" for ex
    by (simp_all add: candidates_def mem_services_def f)
  have 1: "\<exists>f'. SelectHostsFile (mem_services (\<lambda>p. False) True 0x12) [] = Inr (''/hosts/default'', f')"
    using sel [of "\<lambda>p. False" True] by (simp add: c first_existing_def)
  have 2: "\<exists>f'. SelectHostsFile
           (mem_services (\<lambda>p. p = ''/hosts/emummc_0012'' \<or> p = ''/hosts/emummc'') True 0x12) [] =
         Inr (''/hosts/emummc_0012'', f')"
    using sel [of "\<lambda>p. p = ''/hosts/emummc_0012'' \<or> p = ''/hosts/emummc''" True]
    by (simp add: c first_existing_def)
  have 3: "\<exists>f'. SelectHostsFile (mem_services (\<lambda>p. p = ''/hosts/emummc'') True 0x12) [] =
         Inr (''/hosts/emummc'', f')"
    using sel [of "\<lambda>p. p = ''/hosts/emummc''" True] by (simp add: c first_existing_def)
  have 4: "\<exists>f'. SelectHostsFile
           (mem_services (\<lambda>p. p = ''/hosts/emummc_0012'' \<or> p = ''/hosts/sysmmc'') False 0x12) [] =
         Inr (''/hosts/sysmmc'', f')"
    using sel [of "\<lambda>p. p = ''/hosts/emummc_0012'' \<or> p = ''/hosts/sysmmc''" False]
    by (simp add: c first_existing_def)
  show ?thesis using 1 2 3 4 by blast
qed

text \<open>
  C9. On the empty table \<^verbatim>\<open>GetRedirectedHostByName\<close> reports not-found for every hostname
  and leaves the output as it was. On a table as the parser leaves it (unique keys without
  zero bytes, lemma \<open>ParseHostsFile_table_ok\<close>) it returns true together with the address
  \<open>a\<close> exactly when the entry \<open>(hostname, a)\<close> is stored, the key being equal to the
  queried hostname byte for byte, and it returns false with the output unchanged exactly
  when no stored key equals the hostname.
\<close>

theorem lookup_exact_match:
  "GetRedirectedHostByName [] out hostname = (False, out) \<and>
   (table_ok tbl \<and> NUL \<notin> set hostname \<longrightarrow>
      (\<forall>a. GetRedirectedHostByName tbl out hostname = (True, a) \<longleftrightarrow> (hostname, a) \<in> set tbl) \<and>
      (GetRedirectedHostByName tbl out hostname = (False, out) \<longleftrightarrow> hostname \<notin> fst ` set tbl) \<and>
      (fst (GetRedirectedHostByName tbl out hostname) \<longleftrightarrow> (\<exists>k\<in>fst ` set tbl. k = hostname)))"
proof -
  have "(\<forall>a. GetRedirectedHostByName tbl out hostname = (True, a) \<longleftrightarrow> (hostname, a) \<in> set tbl) \<and>
      (GetRedirectedHostByName tbl out hostname = (False, out) \<longleftrightarrow> hostname \<notin> fst ` set tbl) \<and>
      (fst (GetRedirectedHostByName tbl out hostname) \<longleftrightarrow> (\<exists>k\<in>fst ` set tbl. k = hostname))"
    if ok: "table_ok tbl" and n: "NUL \<notin> set hostname"
  proof -
    have g: "GetRedirectedHostByName tbl out hostname =
          (case map_of tbl hostname of Some a \<Rightarrow> (True, a) | None \<Rightarrow> (False, out))"
      using GetRedirectedHostByName_map_of [of tbl out hostname] ok c_str_id [OF n]
      by (simp add: table_ok_def)
    have d: "distinct (map fst tbl)" using ok by (simp add: table_ok_def)
    have m: "map_of tbl hostname = Some a \<longleftrightarrow> (hostname, a) \<in> set tbl" for a
      using d by simp
    have e: "map_of tbl hostname = None \<longleftrightarrow> hostname \<notin> fst ` set tbl"
      by (simp add: map_of_eq_None_iff)
    show ?thesis
      unfolding g using m e by (cases "map_of tbl hostname") auto
  qed
  then show ?thesis by simp
qed

theorem lookup_exact_match_witness:
  "GetRedirectedHostByName [(''a.com'', 0x0100007F)] 0 ''a.com'' = (True, 0x0100007F) \<and>
   GetRedirectedHostByName [(''a.com'', 0x0100007F)] 0 ''A.com'' = (False, 0) \<and>
   GetRedirectedHostByName [] 0 ''a.com'' = (False, 0)"
proof -
  have ok: "table_ok [(''a.com'', 0x0100007F)]"
    by (simp add: table_ok_def char_defs)
  have n: "NUL \<notin> set ''a.com''" "NUL \<notin> set ''A.com''"
    by (simp_all add: char_defs)
  have 1: "GetRedirectedHostByName [(''a.com'', 0x0100007F)] 0 ''a.com'' = (True, 0x0100007F)"
    using lookup_exact_match [of 0 "''a.com''" "[(''a.com'', 0x0100007F)]"] ok n(1) by simp
  have 2: "GetRedirectedHostByName [(''a.com'', 0x0100007F)] 0 ''A.com'' = (False, 0)"
    using lookup_exact_match [of 0 "''A.com''" "[(''a.com'', 0x0100007F)]"] ok n(2) by simp
  have 3: "GetRedirectedHostByName [] 0 ''a.com'' = (False, 0)"
    using lookup_exact_match [of 0 "''a.com''" "[]"] by simp
  show ?thesis using 1 2 3 by simp
qed

end
